theory Spec2Isabelle
  imports Complex_Main "HOL-Library.Multiset"
begin

section \<open>Door configuration report: parsing and diagram layout\<close>

text \<open>
  A shallow embedding of \<^verbatim>\<open>generate_diagrams.py\<close>: \<^verbatim>\<open>parse_door_config\<close> turns the rows of
  a door configuration report into a panel / subpanel / door hierarchy, and
  \<^verbatim>\<open>draw_panel_diagram\<close> places one panel's hierarchy in the unit square.

  Scope of the model.
  \<^item> Text is ASCII: a \<open>char\<close> above code 127 belongs to no character class and has no
    letter case.
  \<^item> The data frame is taken as read: a list of rows whose two cells are either a string or
    missing (pandas NaN).
  \<^item> Coordinates are exact reals where Python computes with floats.
  \<^item> Drawing is modelled by the list of primitives handed to the plotting library; what the
    library does with them (padding of the box style, clipping, rasterising) is not modelled.
\<close>

subsection \<open>Characters and strings\<close>

text \<open>\<^verbatim>\<open>str.isspace\<close>, and \<^verbatim>\<open>\s\<close> of a \<^verbatim>\<open>str\<close> pattern, on ASCII: tab, line feed,
  vertical tab, form feed, carriage return, the four separators 28..31, and space.\<close>

definition is_space :: "char \<Rightarrow> bool" where
  "is_space c = (let n = (of_char c :: nat) in (9 \<le> n \<and> n \<le> 13) \<or> (28 \<le> n \<and> n \<le> 32))"

definition is_digit :: "char \<Rightarrow> bool" where
  "is_digit c = (let n = (of_char c :: nat) in 48 \<le> n \<and> n \<le> 57)"

definition is_word :: "char \<Rightarrow> bool" where
  "is_word c = (let n = (of_char c :: nat) in
     (48 \<le> n \<and> n \<le> 57) \<or> (65 \<le> n \<and> n \<le> 90) \<or> n = 95 \<or> (97 \<le> n \<and> n \<le> 122))"

definition to_lower :: "char \<Rightarrow> char" where
  "to_lower c =
     (case map_of (zip ''ABCDEFGHIJKLMNOPQRSTUVWXYZ'' ''abcdefghijklmnopqrstuvwxyz'') c of
        Some d \<Rightarrow> d
      | None \<Rightarrow> c)"

text \<open>Two characters match under \<^verbatim>\<open>re.IGNORECASE\<close>.\<close>

definition ci_eq :: "char \<Rightarrow> char \<Rightarrow> bool" where
  "ci_eq p c = (to_lower p = to_lower c)"

text \<open>\<^verbatim>\<open>str.strip()\<close>: leading, then trailing whitespace removed.\<close>

definition lstrip :: "string \<Rightarrow> string" where
  "lstrip s = dropWhile is_space s"

definition rstrip :: "string \<Rightarrow> string" where
  "rstrip s = rev (dropWhile is_space (rev s))"

definition strip :: "string \<Rightarrow> string" where
  "strip s = rstrip (lstrip s)"

text \<open>\<^verbatim>\<open>int(s)\<close> on the strings the extractor passes to it. A non-empty string of decimal
  digits is read in base ten; anything else is the \<^verbatim>\<open>ValueError\<close> that the source catches,
  here \<open>None\<close>. (The interpreter's optional limit on the number of digits is not modelled.)\<close>

definition digit_val :: "char \<Rightarrow> int" where
  "digit_val c = int (of_char c) - 48"

definition py_int :: "string \<Rightarrow> int option" where
  "py_int s =
     (if s \<noteq> [] \<and> list_all is_digit s
      then Some (foldl (\<lambda>acc c. 10 * acc + digit_val c) 0 s)
      else None)"

text \<open>\<^verbatim>\<open>str(i)\<close> of an integer, as the f-strings of the labels format it.\<close>

function str_nat :: "nat \<Rightarrow> string" where
  "str_nat n =
     (if n < 10 then [''0123456789'' ! n]
      else str_nat (n div 10) @ [''0123456789'' ! (n mod 10)])"
  by pat_completeness auto
termination
  by (relation "measure (\<lambda>n. n)") auto

definition str_int :: "int \<Rightarrow> string" where
  "str_int i = (if i < 0 then CHR ''-'' # str_nat (nat (- i)) else str_nat (nat i))"

text \<open>\<^verbatim>\<open>s.replace(old, new)\<close> for a non-empty \<open>old\<close>: every occurrence, left to right,
  without overlap.\<close>

fun replace :: "string \<Rightarrow> string \<Rightarrow> string \<Rightarrow> string" where
  "replace old new [] = []"
| "replace old new (c # cs) =
     (if old \<noteq> [] \<and> take (length old) (c # cs) = old
      then new @ replace old new (drop (length old) (c # cs))
      else c # replace old new cs)"

text \<open>\<^verbatim>\<open>sep.join(lines)\<close>.\<close>

fun join :: "string \<Rightarrow> string list \<Rightarrow> string" where
  "join sep [] = []"
| "join sep [l] = l"
| "join sep (l # ls) = l @ sep @ join sep ls"

subsection \<open>The two regular expressions\<close>

text \<open>
  The patterns of the source use literals, \<^verbatim>\<open>\s+\<close>, \<^verbatim>\<open>\w+\<close>, an optional literal and the
  capturing group \<^verbatim>\<open>(\d+)\<close>. A pattern is a list of such items. Matching follows the
  backtracking order of the \<^verbatim>\<open>re\<close> module: a repetition first takes the longest run and
  gives characters back one at a time, an optional item is first taken, and the first
  alternative that lets the rest of the pattern match wins.
\<close>

datatype cls = Space | Digit | Word

datatype tok = Lit char | Plus cls | Grp cls | Opt char

fun in_cls :: "cls \<Rightarrow> char \<Rightarrow> bool" where
  "in_cls Space c = is_space c"
| "in_cls Digit c = is_digit c"
| "in_cls Word c = is_word c"

text \<open>The lengths a repetition of class \<open>k\<close> can take at the head of \<open>s\<close>, longest first.\<close>

definition cuts :: "cls \<Rightarrow> string \<Rightarrow> nat list" where
  "cuts k s = rev [1..<Suc (length (takeWhile (in_cls k) s))]"

fun first_some :: "'a option list \<Rightarrow> 'a option" where
  "first_some [] = None"
| "first_some (None # xs) = first_some xs"
| "first_some (Some r # xs) = Some r"

text \<open>\<open>rx_match ts s caps\<close>: match the items \<open>ts\<close> at the head of \<open>s\<close>; \<open>caps\<close> are the groups
  captured so far. \<open>None\<close> when there is no match.\<close>

fun rx_match :: "tok list \<Rightarrow> string \<Rightarrow> string list \<Rightarrow> string list option" where
  "rx_match [] s caps = Some caps"
| "rx_match (Lit p # ts) s caps =
     (case s of
        [] \<Rightarrow> None
      | c # cs \<Rightarrow> if ci_eq p c then rx_match ts cs caps else None)"
| "rx_match (Plus k # ts) s caps =
     first_some (map (\<lambda>j. rx_match ts (drop j s) caps) (cuts k s))"
| "rx_match (Grp k # ts) s caps =
     first_some (map (\<lambda>j. rx_match ts (drop j s) (caps @ [take j s])) (cuts k s))"
| "rx_match (Opt p # ts) s caps =
     (case s of
        [] \<Rightarrow> rx_match ts s caps
      | c # cs \<Rightarrow>
          if ci_eq p c
          then (case rx_match ts cs caps of
                  Some r \<Rightarrow> Some r
                | None \<Rightarrow> rx_match ts s caps)
          else rx_match ts s caps)"

text \<open>\<^verbatim>\<open>re.search\<close>: the match at the leftmost position that has one.\<close>

fun rx_search :: "tok list \<Rightarrow> string \<Rightarrow> string list option" where
  "rx_search ts [] = rx_match ts [] []"
| "rx_search ts (c # cs) =
     (case rx_match ts (c # cs) [] of
        Some r \<Rightarrow> Some r
      | None \<Rightarrow> rx_search ts cs)"

text \<open>\<^verbatim>\<open>subpanel\s+(\d+)\s+Address\s+(\d+)\<close>\<close>

definition pattern1 :: "tok list" where
  "pattern1 =
     map Lit ''subpanel'' @ [Plus Space, Grp Digit, Plus Space] @
     map Lit ''Address'' @ [Plus Space, Grp Digit]"

text \<open>\<^verbatim>\<open>Subpanel:(\d+)\s+\w+:?(\d+)\<close>\<close>

definition pattern2 :: "tok list" where
  "pattern2 =
     map Lit ''Subpanel:'' @ [Grp Digit, Plus Space, Plus Word, Opt (CHR '':''), Grp Digit]"

subsection \<open>Field extractor\<close>

record hw_info =
  subpanel :: "int option"
  address :: "int option"
  raw :: string

text \<open>Lines 120 to 142 of the source: the first pattern, the second one if the first does
  not match, then the two groups converted by \<^verbatim>\<open>int\<close>.\<close>

definition extract_field :: "string \<Rightarrow> hw_info" where
  "extract_field raw_value =
     (let m = (case rx_search pattern1 raw_value of
                 Some g \<Rightarrow> Some g
               | None \<Rightarrow> rx_search pattern2 raw_value)
      in case m of
           Some [g1, g2] \<Rightarrow> \<lparr>subpanel = py_int g1, address = py_int g2, raw = raw_value\<rparr>
         | _ \<Rightarrow> \<lparr>subpanel = None, address = None, raw = raw_value\<rparr>)"

subsection \<open>Dictionaries\<close>

text \<open>A Python \<^verbatim>\<open>dict\<close> keeps its keys in insertion order, which the door sort observes, so a
  dictionary is an association list. Assigning to a key that is present replaces the value
  where it stands; a new key goes to the end.\<close>

type_synonym ('k, 'v) dict = "('k \<times> 'v) list"

fun dict_set :: "('k, 'v) dict \<Rightarrow> 'k \<Rightarrow> 'v \<Rightarrow> ('k, 'v) dict" where
  "dict_set [] k v = [(k, v)]"
| "dict_set ((k', v') # kvs) k v =
     (if k' = k then (k, v) # kvs else (k', v') # dict_set kvs k v)"

text \<open>\<^verbatim>\<open>d.setdefault(k, {})\<close> followed by a change of the dictionary it returns: the inner
  dictionary is read (empty when \<open>k\<close> is new) and the changed one stored back.\<close>

definition setdefault :: "('k, ('a, 'b) dict) dict \<Rightarrow> 'k \<Rightarrow> ('a, 'b) dict" where
  "setdefault d k = (case map_of d k of Some v \<Rightarrow> v | None \<Rightarrow> [])"

subsection \<open>Data model\<close>

text \<open>A cell of the data frame: a string, or missing (NaN).\<close>

type_synonym cell = "string option"

record row =
  Name :: cell
  Value :: cell

type_synonym data_frame = "row list"

text \<open>\<^verbatim>\<open>str(x)\<close> of a cell: NaN prints as \<^verbatim>\<open>nan\<close>.\<close>

definition py_str :: "cell \<Rightarrow> string" where
  "py_str x = (case x of Some s \<Rightarrow> s | None \<Rightarrow> ''nan'')"

record door =
  door_index :: int
  hardware :: "(string, hw_info) dict"

type_synonym subpanel_dict = "(string, door) dict"
type_synonym panel_dict = "(int, subpanel_dict) dict"
type_synonym panels_structure = "(string, panel_dict) dict"

subsection \<open>Hierarchy builder\<close>

definition sentinel :: string where
  "sentinel = ''Configuration and Communication Settings''"

definition hardware_fields :: "string list" where
  "hardware_fields =
     [''Reader'', ''Alternate Reader'', ''Door Position'', ''Strike'', ''Rex #1'', ''Rex #2'']"

definition priority_keys :: "string list" where
  "priority_keys = [''Reader'', ''Door Position'', ''Strike'', ''Rex #1'', ''Rex #2'']"

text \<open>Line 91 and 92: the positions of the sentinel rows, then the number of rows.\<close>

definition cfg_indices :: "data_frame \<Rightarrow> nat list" where
  "cfg_indices df =
     filter (\<lambda>i. Name (df ! i) = Some sentinel) [0..<length df] @ [length df]"

text \<open>\<^verbatim>\<open>df.loc[a:b]\<close> with \<^verbatim>\<open>reset_index\<close>: the rows \<open>a\<close> to \<open>b\<close>, both included.\<close>

definition loc_slice :: "data_frame \<Rightarrow> nat \<Rightarrow> nat \<Rightarrow> data_frame" where
  "loc_slice df a b = take (Suc b - a) (drop a df)"

text \<open>Lines 116 to 142: one row of the hardware block.\<close>

definition hardware_row :: "(string, hw_info) dict \<Rightarrow> row \<Rightarrow> (string, hw_info) dict" where
  "hardware_row hardware_data r =
     (case Name r of
        None \<Rightarrow> hardware_data
      | Some name \<Rightarrow>
          if name \<in> set hardware_fields
          then let raw_value = (case Value r of Some v \<Rightarrow> v | None \<Rightarrow> [])
               in dict_set hardware_data name (extract_field raw_value)
          else hardware_data)"

text \<open>Lines 112 to 116: the rows after the first \<^verbatim>\<open>Hardware\<close> row of the block.\<close>

definition extract_hardware :: "data_frame \<Rightarrow> (string, hw_info) dict" where
  "extract_hardware block =
     (case dropWhile (\<lambda>r. Name r \<noteq> Some ''Hardware'') block of
        [] \<Rightarrow> []
      | h # following \<Rightarrow> foldl hardware_row [] following)"

text \<open>Lines 145 to 151: the loop over the keys, left at the first key with a subpanel.\<close>

fun resolve :: "string list \<Rightarrow> (string, hw_info) dict \<Rightarrow> int \<times> int" where
  "resolve [] hardware_data = (- 1, - 1)"
| "resolve (key # keys) hardware_data =
     (case map_of hardware_data key of
        None \<Rightarrow> resolve keys hardware_data
      | Some info \<Rightarrow>
          (case subpanel info of
             None \<Rightarrow> resolve keys hardware_data
           | Some sp \<Rightarrow> (sp, case address info of Some a \<Rightarrow> a | None \<Rightarrow> - 1)))"

text \<open>Lines 154 to 159.\<close>

definition insert_door ::
  "panels_structure \<Rightarrow> string \<Rightarrow> int \<Rightarrow> string \<Rightarrow> door \<Rightarrow> panels_structure" where
  "insert_door ps panel_name subpanel_num door_name d =
     (let panel_dict = setdefault ps panel_name;
          subpanel_dict = setdefault panel_dict subpanel_num
      in dict_set ps panel_name
           (dict_set panel_dict subpanel_num (dict_set subpanel_dict door_name d)))"

text \<open>The body of the loop of lines 96 to 159 for the section between two consecutive
  entries of \<open>cfg_indices\<close>. It yields \<open>None\<close> where the source says \<^verbatim>\<open>continue\<close>, and
  otherwise the panel name, the subpanel number, the door name and the door.
  \<open>start_cfg\<close> is the position of a row, so the row above it exists when
  \<open>header_index\<close> is not negative.\<close>

definition parse_section ::
  "data_frame \<Rightarrow> nat \<Rightarrow> nat \<Rightarrow> (string \<times> int \<times> string \<times> door) option" where
  "parse_section df start_cfg end_cfg =
     (let header_index = int start_cfg - 1
      in if header_index < 0 then None
         else
           let door_name = py_str (Name (df ! nat header_index));
               block = loc_slice df (nat header_index) (end_cfg - 1)
           in case filter (\<lambda>r. Name r = Some ''Panel'') block of
                [] \<Rightarrow> None
              | panel_row # _ \<Rightarrow>
                  let panel_name = strip (py_str (Value panel_row));
                      hardware_data = extract_hardware block;
                      (subpanel_num, door_index) = resolve priority_keys hardware_data
                  in Some (panel_name, subpanel_num, door_name,
                           \<lparr>door_index = door_index, hardware = hardware_data\<rparr>))"

text \<open>The loop over \<open>range(len(cfg_indices) - 1)\<close>.\<close>

fun parse_loop :: "data_frame \<Rightarrow> nat list \<Rightarrow> panels_structure \<Rightarrow> panels_structure" where
  "parse_loop df (start_cfg # end_cfg # rest) ps =
     parse_loop df (end_cfg # rest)
       (case parse_section df start_cfg end_cfg of
          None \<Rightarrow> ps
        | Some (panel_name, subpanel_num, door_name, d) \<Rightarrow>
            insert_door ps panel_name subpanel_num door_name d)"
| "parse_loop df [start_cfg] ps = ps"
| "parse_loop df [] ps = ps"

definition parse_door_config :: "data_frame \<Rightarrow> panels_structure" where
  "parse_door_config df = parse_loop df (cfg_indices df) []"

subsection \<open>Layout engine\<close>

text \<open>What \<^verbatim>\<open>draw_panel_diagram\<close> hands to the axes, in the order of the calls:
  \<open>Patch x y w h c\<close> for \<^verbatim>\<open>FancyBboxPatch((x, y), w, h, edgecolor=c)\<close>, \<open>Text x y s\<close> for
  \<^verbatim>\<open>ax.text(x, y, s)\<close> and \<open>Line x y0 y1\<close> for the vertical \<^verbatim>\<open>ax.plot([x, x], [y0, y1])\<close>.
  The edge colour tells the three levels apart: black for the panel, blue for a subpanel,
  green for a door.\<close>

datatype colour = Black | Blue | Green

datatype cmd =
  Patch real real real real colour
| Text real real string
| Line real real real

record diagram =
  figsize :: "real \<times> real"
  cmds :: "cmd list"
  saved_to :: string

text \<open>Lines 272 to 275: \<^verbatim>\<open>sorted\<close> is a stable sort on the key.\<close>

definition door_sort_key :: "door \<Rightarrow> int" where
  "door_sort_key d = (if door_index d \<ge> 0 then door_index d else 99)"

definition door_items :: "subpanel_dict \<Rightarrow> (string \<times> door) list" where
  "door_items doors = sort_key (\<lambda>kv. door_sort_key (snd kv)) doors"

text \<open>Lines 305 to 311.\<close>

definition short :: "string \<Rightarrow> string" where
  "short key =
     replace ''Reader'' ''RDR Output''
       (replace ''Rex #2'' ''REX2 Input''
          (replace ''Rex #1'' ''REX1 Input''
             (replace ''Strike'' ''LOCK Output''
                (replace ''Door Position'' ''DPOS'' key))))"

text \<open>Lines 300 to 312: the loop over the keys, \<open>lines\<close> being the list built so far.\<close>

fun hardware_lines :: "string list \<Rightarrow> (string, hw_info) dict \<Rightarrow> string list \<Rightarrow> string list" where
  "hardware_lines [] hw lines = lines"
| "hardware_lines (key # keys) hw lines =
     hardware_lines keys hw
       (case map_of hw key of
          None \<Rightarrow> lines
        | Some info \<Rightarrow>
            (case address info of
               None \<Rightarrow> lines
             | Some addr \<Rightarrow>
                 if addr > 0 then lines @ [short key @ '':'' @ str_int addr] else lines))"

text \<open>Lines 297 to 312.\<close>

definition label_lines :: "string \<Rightarrow> door \<Rightarrow> string list" where
  "label_lines door_name door_data =
     hardware_lines priority_keys (hardware door_data)
       (if door_index door_data > 0
        then [door_name, ''Addr: '' @ str_int (door_index door_data)]
        else [door_name])"

definition door_label :: "string \<Rightarrow> door \<Rightarrow> string" where
  "door_label door_name door_data = join [CHR 0x0A] (label_lines door_name door_data)"

text \<open>Lines 277 to 322: the loop over the sorted doors of one subpanel, with the running
  \<open>y_cursor\<close>. The subpanel box ends at \<open>0.75 - 0.1 / 2\<close>.\<close>

fun draw_doors ::
  "bool \<Rightarrow> real \<Rightarrow> real \<Rightarrow> real \<Rightarrow> real \<Rightarrow> real \<Rightarrow> (string \<times> door) list \<Rightarrow> cmd list" where
  "draw_doors show_lines sub_x_center sub_width door_height door_spacing y_cursor [] = []"
| "draw_doors show_lines sub_x_center sub_width door_height door_spacing y_cursor
     ((door_name, door_data) # items) =
     (let d_width = sub_width * 0.9
      in (if show_lines
          then [Line sub_x_center (0.75 - 0.1 / 2) (y_cursor + door_height / 2)]
          else []) @
         [Patch (sub_x_center - d_width / 2) (y_cursor - door_height / 2) d_width door_height
            Green,
          Text sub_x_center y_cursor (door_label door_name door_data)] @
         draw_doors show_lines sub_x_center sub_width door_height door_spacing
           (y_cursor - (door_height + door_spacing)) items)"

text \<open>Lines 261 to 276: the doors of one subpanel, nothing when it has none.\<close>

definition draw_subpanel_doors :: "bool \<Rightarrow> real \<Rightarrow> real \<Rightarrow> subpanel_dict \<Rightarrow> cmd list" where
  "draw_subpanel_doors show_lines sub_x_center sub_width doors =
     (let m = length doors
      in if m = 0 then []
         else
           let door_region_top = 0.6;
               door_region_bottom = 0.1;
               door_region_height = door_region_top - door_region_bottom;
               door_height = door_region_height / real m * 0.8;
               door_spacing = door_region_height / real m * 0.2;
               y_cursor = door_region_top - door_height / 2
           in draw_doors show_lines sub_x_center sub_width door_height door_spacing y_cursor
                (door_items doors))"

definition sp_label :: "int \<Rightarrow> string" where
  "sp_label sp =
     ''Subpanel '' @ str_int sp @ [CHR 0x0A] @ (if sp = 0 then ''Internal SIO'' else ''MR52'')"

text \<open>Lines 223 to 322: the body of the loop over the subpanels, for the \<open>i\<close>-th of \<open>n\<close>.
  \<open>sp\<close> is a key of \<open>subpanels\<close>, so the lookup of line 261 finds it.\<close>

definition draw_subpanel :: "bool \<Rightarrow> panel_dict \<Rightarrow> nat \<Rightarrow> nat \<times> int \<Rightarrow> cmd list" where
  "draw_subpanel show_lines subpanels n isp =
     (let i = fst isp;
          sp = snd isp;
          col_start = real i / real n;
          col_end = (real i + 1) / real n;
          sub_x_center = (col_start + col_end) / 2;
          sub_width = (col_end - col_start) * 0.8;
          sub_height = 0.1;
          sub_y = 0.75
      in (if show_lines
          then [Line sub_x_center (0.95 - 0.08 / 2) (sub_y + sub_height / 2)]
          else []) @
         [Patch (sub_x_center - sub_width / 2) (sub_y - sub_height / 2) sub_width sub_height
            Blue,
          Text sub_x_center sub_y (sp_label sp)] @
         draw_subpanel_doors show_lines sub_x_center sub_width
           (case map_of subpanels sp of Some doors \<Rightarrow> doors | None \<Rightarrow> []))"

text \<open>Lines 186 to 328. \<open>None\<close> is the early \<^verbatim>\<open>return\<close> of line 188: no figure is made and
  nothing is saved. Otherwise the figure is saved to \<open>output_file\<close>.\<close>

definition draw_panel_diagram ::
  "string \<Rightarrow> panel_dict \<Rightarrow> string \<Rightarrow> bool \<Rightarrow> diagram option" where
  "draw_panel_diagram panel_name subpanels output_file show_lines =
     (let n = length subpanels
      in if n = 0 then None
         else
           let max_doors = fold max (map (\<lambda>kv. length (snd kv)) subpanels) 0;
               fig_width = max 12 (3 * real n);
               fig_height = max 6 (2 + 1.5 * real max_doors);
               panel_x = 0.5;
               panel_y = 0.95;
               panel_width = 0.4;
               panel_height = 0.08;
               subpanel_numbers = sort (map fst subpanels)
           in Some \<lparr>figsize = (fig_width, fig_height),
                    cmds =
                      [Patch (panel_x - panel_width / 2) (panel_y - panel_height / 2)
                         panel_width panel_height Black,
                       Text panel_x panel_y (''Panel'' @ [CHR 0x0A] @ panel_name)] @
                      concat (map (draw_subpanel show_lines subpanels n)
                                (enumerate 0 subpanel_numbers)),
                    saved_to = output_file\<rparr>)"

subsection \<open>Notions used to state the properties\<close>

text \<open>A door whose index was resolved.\<close>

definition resolved :: "string \<times> door \<Rightarrow> bool" where
  "resolved kv = (door_index (snd kv) \<ge> 0)"

text \<open>The label line of one hardware kind as the specification words it: present, with an
  address that is present and positive.\<close>

definition spec_kind_line :: "(string, hw_info) dict \<Rightarrow> string \<Rightarrow> string \<Rightarrow> string list" where
  "spec_kind_line hw kind short_label =
     (case map_of hw kind of
        Some info \<Rightarrow>
          (case address info of
             Some a \<Rightarrow> if a > 0 then [short_label @ '':'' @ str_int a] else []
           | None \<Rightarrow> [])
      | None \<Rightarrow> [])"

text \<open>The labels of the text commands, in drawing order.\<close>

fun labels :: "cmd list \<Rightarrow> string list" where
  "labels [] = []"
| "labels (Text x y s # cs) = s # labels cs"
| "labels (c # cs) = labels cs"

text \<open>The first pattern as the specification words it, read at the head of \<open>s\<close>: the word
  subpanel in any letter case, whitespace, the digits \<open>a\<close>, whitespace, the word address in
  any letter case, whitespace, and the digits \<open>b\<close>, where \<open>b\<close> takes every digit there is.\<close>

definition occurs1 :: "string \<Rightarrow> string \<Rightarrow> string \<Rightarrow> bool" where
  "occurs1 s a b =
     (\<exists>kw1 ws1 ws2 kw2 ws3 rest.
        s = kw1 @ ws1 @ a @ ws2 @ kw2 @ ws3 @ b @ rest \<and>
        map to_lower kw1 = ''subpanel'' \<and>
        ws1 \<noteq> [] \<and> list_all is_space ws1 \<and>
        a \<noteq> [] \<and> list_all is_digit a \<and>
        ws2 \<noteq> [] \<and> list_all is_space ws2 \<and>
        map to_lower kw2 = ''address'' \<and>
        ws3 \<noteq> [] \<and> list_all is_space ws3 \<and>
        b \<noteq> [] \<and> list_all is_digit b \<and>
        (case rest of [] \<Rightarrow> True | c # _ \<Rightarrow> \<not> is_digit c))"

text \<open>The door stored under a panel name, a subpanel number and a door name.\<close>

definition lookup3 :: "panels_structure \<Rightarrow> string \<times> int \<times> string \<Rightarrow> door option" where
  "lookup3 ps k =
     (case map_of ps (fst k) of
        None \<Rightarrow> None
      | Some pd \<Rightarrow>
          (case map_of pd (fst (snd k)) of
             None \<Rightarrow> None
           | Some sd \<Rightarrow> map_of sd (snd (snd k))))"

text \<open>Every dictionary of the structure has each key once.\<close>

definition distinct_keys :: "panels_structure \<Rightarrow> bool" where
  "distinct_keys ps =
     (distinct (map fst ps) \<and>
      list_all (\<lambda>pe. distinct (map fst (snd pe)) \<and>
                 list_all (\<lambda>se. distinct (map fst (snd se))) (snd pe)) ps)"

text \<open>The sections of the table: the pairs of consecutive entries of \<open>cfg_indices\<close>.\<close>

fun sections :: "nat list \<Rightarrow> (nat \<times> nat) list" where
  "sections (start_cfg # end_cfg # rest) = (start_cfg, end_cfg) # sections (end_cfg # rest)"
| "sections [start_cfg] = []"
| "sections [] = []"

text \<open>The doors of the sections that are parsed, in table order, each with the panel name,
  subpanel number and door name it is stored under.\<close>

definition entries :: "data_frame \<Rightarrow> ((string \<times> int \<times> string) \<times> door) list" where
  "entries df =
     List.map_filter
       (\<lambda>se. case parse_section df (fst se) (snd se) of
               None \<Rightarrow> None
             | Some (p, sp, n, d) \<Rightarrow> Some ((p, sp, n), d))
       (sections (cfg_indices df))"

text \<open>A malformed section: its sentinel is the first row of the table, or no row of its
  block is a \<^verbatim>\<open>Panel\<close> row.\<close>

definition malformed :: "data_frame \<Rightarrow> nat \<Rightarrow> nat \<Rightarrow> bool" where
  "malformed df start_cfg end_cfg =
     (start_cfg = 0 \<or>
      filter (\<lambda>r. Name r = Some ''Panel'') (loc_slice df (start_cfg - 1) (end_cfg - 1)) = [])"

definition keyed_section ::
  "data_frame \<Rightarrow> nat \<times> nat \<Rightarrow> ((string \<times> int \<times> string) \<times> door) option" where
  "keyed_section df se =
     (case parse_section df (fst se) (snd se) of
        None \<Rightarrow> None
      | Some (p, sp, n, d) \<Rightarrow> Some ((p, sp, n), d))"

text \<open>The boxes among the drawing commands, in drawing order.\<close>

fun patches :: "cmd list \<Rightarrow> cmd list" where
  "patches [] = []"
| "patches (Patch x y w h c # cs) = Patch x y w h c # patches cs"
| "patches (c # cs) = patches cs"

text \<open>A box lies in the unit square and has a positive width and height.\<close>

fun in_unit :: "cmd \<Rightarrow> bool" where
  "in_unit (Patch x y w h c) = (0 \<le> x \<and> x + w \<le> 1 \<and> 0 \<le> y \<and> y + h \<le> 1 \<and> 0 < w \<and> 0 < h)"
| "in_unit c = True"

text \<open>Two boxes of the same level: panel, subpanel or door.\<close>

fun same_level :: "cmd \<Rightarrow> cmd \<Rightarrow> bool" where
  "same_level (Patch x y w h c) (Patch x' y' w' h' c') = (c = c')"
| "same_level a b = False"

text \<open>Two boxes neither overlap nor touch: a gap separates them along one axis.\<close>

fun apart :: "cmd \<Rightarrow> cmd \<Rightarrow> bool" where
  "apart (Patch x y w h c) (Patch x' y' w' h' c') =
     (x + w < x' \<or> x' + w' < x \<or> y + h < y' \<or> y' + h' < y)"
| "apart a b = True"

text \<open>The boxes in closed form: the panel box, the box of the \<open>i\<close>-th of \<open>n\<close> subpanels, and
  the box of the \<open>k\<close>-th of the \<open>m\<close> doors of that subpanel.\<close>

definition panel_box :: cmd where
  "panel_box = Patch 0.3 0.91 0.4 0.08 Black"

definition sub_box :: "nat \<Rightarrow> nat \<Rightarrow> cmd" where
  "sub_box n i = Patch ((real i + 0.1) / real n) 0.7 (0.8 / real n) 0.1 Blue"

definition door_box :: "nat \<Rightarrow> nat \<Rightarrow> nat \<Rightarrow> nat \<Rightarrow> cmd" where
  "door_box n i m k =
     Patch ((real i + 0.14) / real n) (0.6 - (real k + 0.8) * (0.5 / real m))
       (0.72 / real n) (0.8 * (0.5 / real m)) Green"

text \<open>The number of doors of a subpanel, and the boxes of its column.\<close>

definition door_count :: "panel_dict \<Rightarrow> int \<Rightarrow> nat" where
  "door_count subpanels sp =
     length (case map_of subpanels sp of Some doors \<Rightarrow> doors | None \<Rightarrow> [])"

definition column_boxes :: "panel_dict \<Rightarrow> nat \<Rightarrow> nat \<times> int \<Rightarrow> cmd list" where
  "column_boxes subpanels n isp =
     sub_box n (fst isp) #
     map (door_box n (fst isp) (door_count subpanels (snd isp)))
       [0..<door_count subpanels (snd isp)]"

definition separate :: "cmd \<Rightarrow> cmd \<Rightarrow> bool" where
  "separate a b = (same_level a b \<longrightarrow> apart a b)"

subsection \<open>Example inputs\<close>

definition mk_row :: "string \<Rightarrow> string \<Rightarrow> row" where
  "mk_row n v = \<lparr>Name = Some n, Value = Some v\<rparr>"

definition example_door :: door where
  "example_door =
     \<lparr>door_index = 7,
      hardware =
        [(''Reader'',
          \<lparr>subpanel = Some 3, address = Some 7, raw = ''Reader on subpanel 3 Address 7''\<rparr>),
         (''Alternate Reader'', \<lparr>subpanel = Some 3, address = Some 8, raw = []\<rparr>),
         (''Strike'', \<lparr>subpanel = Some 3, address = Some 0, raw = []\<rparr>),
         (''Rex #1'', \<lparr>subpanel = None, address = None, raw = ''none''\<rparr>)]\<rparr>"

definition example_hw :: "(string, hw_info) dict" where
  "example_hw =
     [(''Reader'', \<lparr>subpanel = None, address = None, raw = ''unknown''\<rparr>),
      (''Alternate Reader'', \<lparr>subpanel = Some 9, address = Some 1, raw = []\<rparr>),
      (''Strike'', \<lparr>subpanel = Some 3, address = None, raw = []\<rparr>),
      (''Rex #1'', \<lparr>subpanel = Some 4, address = Some 2, raw = []\<rparr>)]"

definition example_df :: data_frame where
  "example_df =
     [mk_row ''Door A'' [],
      mk_row sentinel [],
      mk_row ''Panel'' ''  Upper School '',
      mk_row ''Hardware'' [],
      mk_row ''Reader'' ''Reader on subpanel 3 Address 7'',
      mk_row ''Strike'' ''Relay (Subpanel:3 Output:2)'',
      mk_row ''Door B'' [],
      mk_row sentinel [],
      mk_row ''Panel'' ''Upper School'',
      mk_row ''Hardware'' [],
      \<lparr>Name = Some ''Reader'', Value = None\<rparr>]"

definition indexed_doors :: "int list \<Rightarrow> subpanel_dict" where
  "indexed_doors is =
     map (\<lambda>(n, i). (''door '' @ str_nat n, \<lparr>door_index = i, hardware = []\<rparr>))
       (enumerate 0 is)"

definition example_df_dup :: data_frame where
  "example_df_dup =
     [mk_row ''Door A'' [],
      mk_row sentinel [],
      mk_row ''Panel'' ''P'',
      mk_row ''Hardware'' [],
      mk_row ''Reader'' ''Reader on subpanel 1 Address 4'',
      mk_row ''Door A'' [],
      mk_row sentinel [],
      mk_row ''Panel'' ''  P '',
      mk_row ''Hardware'' [],
      mk_row ''Reader'' ''Reader on subpanel 1 Address 5'']"

definition example_df_malformed :: data_frame where
  "example_df_malformed =
     [mk_row sentinel [],
      mk_row ''Door X'' [],
      mk_row sentinel [],
      mk_row ''Hardware'' [],
      mk_row ''Door B'' [],
      mk_row sentinel [],
      mk_row ''Panel'' ''P'',
      mk_row ''Strike'' ''ignored: before the Hardware row'']"

definition reader_door :: "int \<Rightarrow> string \<Rightarrow> door" where
  "reader_door a raw_text =
     \<lparr>door_index = a,
      hardware = [(''Reader'', \<lparr>subpanel = Some 1, address = Some a, raw = raw_text\<rparr>)]\<rparr>"

definition example_panel :: panel_dict where
  "example_panel = [(3, indexed_doors [5, - 1, 2]), (0, indexed_doors [0])]"

section \<open>Properties\<close>

subsection \<open>Dictionaries\<close>

lemma map_of_dict_set: "map_of (dict_set m k v) = (map_of m)(k \<mapsto> v)"
  by (induction m) (auto simp: fun_eq_iff)

subsection \<open>Subpanel and door index of a door\<close>

lemma resolve_first:
  "keys = before @ key # after \<Longrightarrow> map_of hw key = Some (info :: hw_info) \<Longrightarrow>
   subpanel info = Some sp \<Longrightarrow>
   (\<forall>k\<in>set before. \<forall>i :: hw_info. map_of hw k = Some i \<longrightarrow> subpanel i = None) \<Longrightarrow>
   resolve keys hw = (sp, case address info of Some a \<Rightarrow> a | None \<Rightarrow> - 1)"
  by (induction before arbitrary: keys) (auto split: option.splits)

lemma resolve_none:
  "(\<forall>k\<in>set keys. \<forall>i :: hw_info. map_of hw k = Some i \<longrightarrow> subpanel i = None) \<Longrightarrow>
   resolve keys hw = (- 1, - 1)"
  by (induction keys) (auto split: option.splits)

lemma parse_section_resolve:
  "parse_section df a b = Some (p, sp, name, d) \<Longrightarrow>
   (sp, door_index d) = resolve priority_keys (hardware d)"
  by (auto simp: parse_section_def Let_def split: if_splits list.splits prod.splits)

text \<open>
  Claim C2. The subpanel number and the door index of every parsed door come from a scan of
  its hardware kinds in the order Reader, Door Position, Strike, Rex #1, Rex #2: the first
  kind that is present with a subpanel gives the subpanel number, and the door index is that
  kind's address, or \<open>-1\<close> when the address is absent; when no kind has a subpanel both are
  \<open>-1\<close>.
\<close>

theorem subpanel_and_index_by_priority:
  "priority_keys = [''Reader'', ''Door Position'', ''Strike'', ''Rex #1'', ''Rex #2''] \<and>
   (\<forall>df a b p sp name d. parse_section df a b = Some (p, sp, name, d) \<longrightarrow>
      (sp, door_index d) = resolve priority_keys (hardware d)) \<and>
   (\<forall>(hw :: (string, hw_info) dict) before key after (info :: hw_info) sp.
      priority_keys = before @ key # after \<and> map_of hw key = Some info \<and>
      subpanel info = Some sp \<and>
      (\<forall>k\<in>set before. \<forall>i :: hw_info. map_of hw k = Some i \<longrightarrow> subpanel i = None) \<longrightarrow>
      resolve priority_keys hw = (sp, case address info of Some a \<Rightarrow> a | None \<Rightarrow> - 1)) \<and>
   (\<forall>hw :: (string, hw_info) dict.
      (\<forall>k\<in>set priority_keys. \<forall>i :: hw_info. map_of hw k = Some i \<longrightarrow> subpanel i = None) \<longrightarrow>
      resolve priority_keys hw = (- 1, - 1))"
proof (intro conjI allI impI)
  show "priority_keys = [''Reader'', ''Door Position'', ''Strike'', ''Rex #1'', ''Rex #2'']"
    by (simp add: priority_keys_def)
next
  fix df a b p sp name d
  assume "parse_section df a b = Some (p, sp, name, d)"
  then show "(sp, door_index d) = resolve priority_keys (hardware d)"
    by (rule parse_section_resolve)
next
  fix hw :: "(string, hw_info) dict" and before key after and info :: hw_info and sp
  assume "priority_keys = before @ key # after \<and> map_of hw key = Some info \<and>
      subpanel info = Some sp \<and>
      (\<forall>k\<in>set before. \<forall>i :: hw_info. map_of hw k = Some i \<longrightarrow> subpanel i = None)"
  then show "resolve priority_keys hw = (sp, case address info of Some a \<Rightarrow> a | None \<Rightarrow> - 1)"
    using resolve_first by blast
next
  fix hw :: "(string, hw_info) dict"
  assume "\<forall>k\<in>set priority_keys. \<forall>i :: hw_info. map_of hw k = Some i \<longrightarrow> subpanel i = None"
  then show "resolve priority_keys hw = (- 1, - 1)"
    by (rule resolve_none)
qed

theorem subpanel_and_index_by_priority_witness:
  "resolve priority_keys example_hw = (3, - 1) \<and>
   resolve priority_keys
     [(''Alternate Reader'', \<lparr>subpanel = Some 9, address = Some 1, raw = []\<rparr>)] = (- 1, - 1) \<and>
   (\<exists>d. parse_section example_df 1 7 = Some (''Upper School'', 3, ''Door A'', d) \<and>
        (3, door_index d) = resolve priority_keys (hardware d))"
proof -
  note T = subpanel_and_index_by_priority
  have k: "priority_keys = [''Reader'', ''Door Position''] @ ''Strike'' # [''Rex #1'', ''Rex #2'']"
    using T by simp
  have "resolve priority_keys example_hw =
        (3, case address \<lparr>subpanel = Some 3, address = None, raw = []\<rparr> of
              Some a \<Rightarrow> a | None \<Rightarrow> - 1)"
    using T k by (intro T [THEN conjunct2, THEN conjunct2, THEN conjunct1, rule_format,
          of "[''Reader'', ''Door Position'']" "''Strike''" "[''Rex #1'', ''Rex #2'']"])
       (simp add: example_hw_def)
  then have a: "resolve priority_keys example_hw = (3, - 1)" by simp
  have b: "resolve priority_keys
             [(''Alternate Reader'', \<lparr>subpanel = Some 9, address = Some 1, raw = []\<rparr>)] =
           (- 1, - 1)"
    by (rule T [THEN conjunct2, THEN conjunct2, THEN conjunct2, rule_format])
       (auto simp: priority_keys_def)
  define d where "d = \<lparr>door_index = 7, hardware =
      [(''Reader'', \<lparr>subpanel = Some 3, address = Some 7,
                     raw = ''Reader on subpanel 3 Address 7''\<rparr>),
       (''Strike'', \<lparr>subpanel = Some 3, address = Some 2,
                     raw = ''Relay (Subpanel:3 Output:2)''\<rparr>)]\<rparr>"
  have d: "parse_section example_df 1 7 = Some (''Upper School'', 3, ''Door A'', d)"
    unfolding d_def by code_simp
  from T d have "(3, door_index d) = resolve priority_keys (hardware d)" by blast
  with a b d show ?thesis by blast
qed

subsection \<open>Order of the doors of a subpanel\<close>

lemma key_resolved: "resolved kv \<Longrightarrow> door_sort_key (snd kv) = door_index (snd kv)"
  by (simp add: resolved_def door_sort_key_def)

lemma key_unresolved: "\<not> resolved kv \<Longrightarrow> door_sort_key (snd kv) = 99"
  by (simp add: resolved_def door_sort_key_def)

lemma sorted_const: "sorted (map (\<lambda>_. c :: int) xs)"
  by (induction xs) auto

text \<open>With every index below the sentinel 99, the resolved doors come first, in ascending
  order of index, and the unresolved ones follow in the order of the dictionary. The proof
  checks the three properties that determine a stable sort.\<close>

lemma door_items_small_indices:
  assumes small: "\<forall>kv\<in>set doors. door_index (snd kv) < 99"
  shows "door_items doors =
         sort_key (\<lambda>kv. door_index (snd kv)) (filter resolved doors) @
         filter (\<lambda>kv. \<not> resolved kv) doors"
proof -
  let ?f = "\<lambda>kv :: string \<times> door. door_sort_key (snd kv)"
  let ?g = "\<lambda>kv :: string \<times> door. door_index (snd kv)"
  let ?R = "filter resolved doors"
  let ?U = "filter (\<lambda>kv. \<not> resolved kv) doors"
  let ?S = "sort_key ?g ?R"
  have fS: "\<And>x. x \<in> set ?S \<Longrightarrow> ?f x = ?g x \<and> ?g x < 99"
    using small by (auto simp: key_resolved)
  have fU: "\<And>x. x \<in> set ?U \<Longrightarrow> ?f x = 99"
    by (auto simp: key_unresolved)
  have m: "mset (?S @ ?U) = mset doors"
    by (simp add: multiset_partition [symmetric])
  have mapeq: "map ?f ?S = map ?g ?S"
    using fS by (intro map_cong) auto
  have sS: "sorted (map ?f ?S)"
    unfolding mapeq by (rule sorted_sort_key)
  have "map ?f ?U = map (\<lambda>_. 99) ?U"
    using fU by (intro map_cong) auto
  then have sU: "sorted (map ?f ?U)"
    by (simp only: sorted_const)
  have "\<forall>x\<in>set (map ?f ?S). \<forall>y\<in>set (map ?f ?U). x \<le> y"
    using fS fU by fastforce
  with sS sU have srt: "sorted (map ?f (?S @ ?U))"
    by (simp only: map_append sorted_append)
  have stab: "filter (\<lambda>x. ?f k = ?f x) (?S @ ?U) = filter (\<lambda>x. ?f k = ?f x) doors"
    if "k \<in> set (?S @ ?U)" for k
  proof (cases "resolved k")
    case True
    then have fk: "?f k = ?g k" "?g k < 99"
      using that small by (auto simp: key_resolved)
    have "filter (\<lambda>x. ?f k = ?f x) ?U = []"
      using fk fU by (auto simp: filter_empty_conv)
    moreover have "filter (\<lambda>x. ?f k = ?f x) ?S = filter (\<lambda>x. ?g k = ?g x) ?S"
      using fS fk by (intro filter_cong) auto
    moreover have "filter (\<lambda>x. ?g k = ?g x) ?S = filter (\<lambda>x. ?g k = ?g x) ?R"
      using sort_key_stable [of ?g "?g k" ?R] by (simp add: eq_commute)
    moreover have "(resolved x \<and> ?g k = ?g x) = (?f k = ?f x)" for x
      using fk by (cases "resolved x") (simp_all add: key_resolved key_unresolved)
    then have "filter (\<lambda>x. ?g k = ?g x) ?R = filter (\<lambda>x. ?f k = ?f x) doors"
      by simp
    ultimately show ?thesis by simp
  next
    case False
    then have fk: "?f k = 99" by (simp add: key_unresolved)
    have "filter (\<lambda>x. ?f k = ?f x) ?S = []"
      using fk fS by (fastforce simp: filter_empty_conv)
    moreover have "filter (\<lambda>x. ?f k = ?f x) ?U = ?U"
      unfolding filter_id_conv using fk fU by metis
    moreover have "(\<not> resolved x) = (?f k = ?f x)" if "x \<in> set doors" for x
      using fk small that by (cases "resolved x") (auto simp: key_resolved key_unresolved)
    then have "?U = filter (\<lambda>x. ?f k = ?f x) doors"
      by (intro filter_cong) auto
    ultimately show ?thesis by simp
  qed
  show ?thesis
    unfolding door_items_def
    by (rule properties_for_sort_key [OF m stab srt])
qed

lemma door_items_example:
  assumes "map (\<lambda>kv. door_index (snd kv)) doors = [5, - 1, 2, - 1, 1]"
  shows "door_items doors = [doors ! 4, doors ! 2, doors ! 0, doors ! 1, doors ! 3]"
proof -
  from assms obtain a b c d e where ds: "doors = [a, b, c, d, e]"
    and ix: "door_index (snd a) = 5" "door_index (snd b) = - 1" "door_index (snd c) = 2"
            "door_index (snd d) = - 1" "door_index (snd e) = 1"
    by (auto simp: map_eq_Cons_conv)
  show ?thesis
    by (simp add: ds ix door_items_def door_sort_key_def)
qed

lemma labels_draw_doors:
  "labels (draw_doors show_lines cx sw dh ds y items) =
   map (\<lambda>kv. door_label (fst kv) (snd kv)) items"
  by (induction items arbitrary: y) (auto simp: Let_def)

lemma labels_draw_subpanel_doors:
  "labels (draw_subpanel_doors show_lines cx sw doors) =
   map (\<lambda>kv. door_label (fst kv) (snd kv)) (door_items doors)"
  by (cases "doors = []")
     (simp_all add: draw_subpanel_doors_def Let_def labels_draw_doors door_items_def)

text \<open>
  Claim C3, as the code has it. The doors of a subpanel are drawn in the order of a stable
  sort on the key that is the door index when it is not negative and 99 otherwise: the keys
  ascend, no door is lost or added, and doors with equal keys keep the order of the
  dictionary. When every index is below 99, this puts the resolved doors first, by ascending
  index, and the unresolved ones last in their original order. Doors with the indices
  5, -1, 2, -1, 1 are drawn in the order 1, 2, 5, -1, -1, the two unresolved doors in their
  original order.
\<close>

theorem door_items_stable_sort:
  "labels (draw_subpanel_doors show_lines cx sw doors) =
     map (\<lambda>kv. door_label (fst kv) (snd kv)) (door_items doors) \<and>
   sorted (map (\<lambda>kv. door_sort_key (snd kv)) (door_items doors)) \<and>
   mset (door_items doors) = mset doors \<and>
   (\<forall>k. filter (\<lambda>kv. door_sort_key (snd kv) = k) (door_items doors) =
        filter (\<lambda>kv. door_sort_key (snd kv) = k) doors) \<and>
   ((\<forall>kv\<in>set doors. door_index (snd kv) < 99) \<longrightarrow>
      door_items doors =
        sort_key (\<lambda>kv. door_index (snd kv)) (filter resolved doors) @
        filter (\<lambda>kv. \<not> resolved kv) doors) \<and>
   (map (\<lambda>kv. door_index (snd kv)) doors = [5, - 1, 2, - 1, 1] \<longrightarrow>
      door_items doors = [doors ! 4, doors ! 2, doors ! 0, doors ! 1, doors ! 3])"
proof (intro conjI allI impI)
  show "labels (draw_subpanel_doors show_lines cx sw doors) =
        map (\<lambda>kv. door_label (fst kv) (snd kv)) (door_items doors)"
    by (rule labels_draw_subpanel_doors)
  show "sorted (map (\<lambda>kv. door_sort_key (snd kv)) (door_items doors))"
    unfolding door_items_def by (rule sorted_sort_key)
  show "mset (door_items doors) = mset doors"
    by (simp add: door_items_def)
  show "filter (\<lambda>kv. door_sort_key (snd kv) = k) (door_items doors) =
        filter (\<lambda>kv. door_sort_key (snd kv) = k) doors" for k
    unfolding door_items_def by (rule sort_key_stable)
  show "door_items doors =
        sort_key (\<lambda>kv. door_index (snd kv)) (filter resolved doors) @
        filter (\<lambda>kv. \<not> resolved kv) doors"
    if "\<forall>kv\<in>set doors. door_index (snd kv) < 99"
    using that by (rule door_items_small_indices)
  show "door_items doors = [doors ! 4, doors ! 2, doors ! 0, doors ! 1, doors ! 3]"
    if "map (\<lambda>kv. door_index (snd kv)) doors = [5, - 1, 2, - 1, 1]"
    using that by (rule door_items_example)
qed

theorem door_items_stable_sort_witness:
  "map fst (door_items (indexed_doors [5, - 1, 2, - 1, 1])) =
     [''door 4'', ''door 2'', ''door 0'', ''door 1'', ''door 3''] \<and>
   map (\<lambda>kv. door_index (snd kv)) (door_items (indexed_doors [5, - 1, 2, - 1, 1])) =
     [1, 2, 5, - 1, - 1] \<and>
   door_items (indexed_doors [5, - 1, 2, - 1, 1]) =
     sort_key (\<lambda>kv. door_index (snd kv)) (filter resolved (indexed_doors [5, - 1, 2, - 1, 1])) @
     filter (\<lambda>kv. \<not> resolved kv) (indexed_doors [5, - 1, 2, - 1, 1])"
proof -
  let ?ds = "indexed_doors [5, - 1, 2, - 1, 1]"
  note T = door_items_stable_sort [of True 0 0 ?ds]
  have ds: "?ds = [(''door 0'', \<lparr>door_index = 5, hardware = []\<rparr>),
                   (''door 1'', \<lparr>door_index = - 1, hardware = []\<rparr>),
                   (''door 2'', \<lparr>door_index = 2, hardware = []\<rparr>),
                   (''door 3'', \<lparr>door_index = - 1, hardware = []\<rparr>),
                   (''door 4'', \<lparr>door_index = 1, hardware = []\<rparr>)]"
    by code_simp
  have h1: "\<forall>kv\<in>set ?ds. door_index (snd kv) < 99"
    unfolding ds by simp
  have h2: "map (\<lambda>kv. door_index (snd kv)) ?ds = [5, - 1, 2, - 1, 1]"
    unfolding ds by simp
  from T h2 have e: "door_items ?ds = [?ds ! 4, ?ds ! 2, ?ds ! 0, ?ds ! 1, ?ds ! 3]"
    by blast
  from T h1 have p: "door_items ?ds =
     sort_key (\<lambda>kv. door_index (snd kv)) (filter resolved ?ds) @
     filter (\<lambda>kv. \<not> resolved kv) ?ds"
    by blast
  have "map fst (door_items ?ds) = [''door 4'', ''door 2'', ''door 0'', ''door 1'', ''door 3'']"
    unfolding e unfolding ds by simp
  moreover have "map (\<lambda>kv. door_index (snd kv)) (door_items ?ds) = [1, 2, 5, - 1, - 1]"
    unfolding e unfolding ds by simp
  ultimately show ?thesis using p by blast
qed

text \<open>An index of 100 sorts after the sentinel: the unresolved door is drawn first.\<close>

theorem unresolved_not_last_counterexample:
  "map (\<lambda>kv. door_index (snd kv)) (door_items (indexed_doors [100, - 1])) = [- 1, 100]"
  by code_simp

subsection \<open>A panel without subpanels\<close>

text \<open>
  Claim C8. For a panel with no subpanel the drawing operation returns at once: no figure is
  laid out, nothing is saved, and no error is raised.
\<close>

theorem zero_subpanels_no_diagram:
  "draw_panel_diagram panel_name [] output_file show_lines = None"
  by (simp add: draw_panel_diagram_def)

subsection \<open>Label of a door\<close>

lemma hardware_lines_concat:
  "hardware_lines keys hw lines =
   lines @ concat (map (\<lambda>k. spec_kind_line hw k (short k)) keys)"
  by (induction keys arbitrary: lines) (auto simp: spec_kind_line_def split: option.splits)

lemma short_values:
  "short ''Reader'' = ''RDR Output''" "short ''Door Position'' = ''DPOS''"
  "short ''Strike'' = ''LOCK Output''" "short ''Rex #1'' = ''REX1 Input''"
  "short ''Rex #2'' = ''REX2 Input''"
  by code_simp+

lemma label_lines_eq:
  "label_lines name d =
     [name] @ (if door_index d > 0 then [''Addr: '' @ str_int (door_index d)] else []) @
     spec_kind_line (hardware d) ''Reader'' ''RDR Output'' @
     spec_kind_line (hardware d) ''Door Position'' ''DPOS'' @
     spec_kind_line (hardware d) ''Strike'' ''LOCK Output'' @
     spec_kind_line (hardware d) ''Rex #1'' ''REX1 Input'' @
     spec_kind_line (hardware d) ''Rex #2'' ''REX2 Input''"
  by (simp add: label_lines_def hardware_lines_concat priority_keys_def short_values)

lemma spec_kind_line_other:
  "k \<noteq> k' \<Longrightarrow> spec_kind_line (dict_set hw k' v) k l = spec_kind_line hw k l"
  by (simp add: spec_kind_line_def map_of_dict_set)

text \<open>
  Claim C9. The label of a door is its lines joined by line feeds: the door name; an address
  line exactly when the door index is positive; then, in the order Reader, Door Position,
  Strike, Rex #1, Rex #2, one line \<open>short label:address\<close> for each kind that is present with
  an address that is present and positive, the short labels being RDR Output, DPOS,
  LOCK Output, REX1 Input and REX2 Input. An Alternate Reader entry does not change the
  label.
\<close>

theorem door_label_lines:
  "door_label name d = join [CHR 0x0A] (label_lines name d) \<and>
   label_lines name d =
     [name] @ (if door_index d > 0 then [''Addr: '' @ str_int (door_index d)] else []) @
     spec_kind_line (hardware d) ''Reader'' ''RDR Output'' @
     spec_kind_line (hardware d) ''Door Position'' ''DPOS'' @
     spec_kind_line (hardware d) ''Strike'' ''LOCK Output'' @
     spec_kind_line (hardware d) ''Rex #1'' ''REX1 Input'' @
     spec_kind_line (hardware d) ''Rex #2'' ''REX2 Input'' \<and>
   label_lines name (d\<lparr>hardware := dict_set (hardware d) ''Alternate Reader'' info\<rparr>) =
     label_lines name d"
  by (simp add: door_label_def label_lines_eq spec_kind_line_other)

theorem door_label_lines_witness:
  "label_lines ''Door A'' example_door = [''Door A'', ''Addr: 7'', ''RDR Output:7''] \<and>
   label_lines ''Door A''
     (example_door\<lparr>hardware := dict_set (hardware example_door) ''Alternate Reader''
        \<lparr>subpanel = Some 1, address = Some 9, raw = []\<rparr>\<rparr>) =
     [''Door A'', ''Addr: 7'', ''RDR Output:7'']"
proof -
  note T = door_label_lines
    [of "''Door A''" example_door "\<lparr>subpanel = Some 1, address = Some 9, raw = []\<rparr>"]
  have "[''Door A''] @
     (if door_index example_door > 0
      then [''Addr: '' @ str_int (door_index example_door)] else []) @
     spec_kind_line (hardware example_door) ''Reader'' ''RDR Output'' @
     spec_kind_line (hardware example_door) ''Door Position'' ''DPOS'' @
     spec_kind_line (hardware example_door) ''Strike'' ''LOCK Output'' @
     spec_kind_line (hardware example_door) ''Rex #1'' ''REX1 Input'' @
     spec_kind_line (hardware example_door) ''Rex #2'' ''REX2 Input'' =
     [''Door A'', ''Addr: 7'', ''RDR Output:7'']"
    by code_simp
  with T show ?thesis by simp
qed

subsection \<open>The matcher\<close>

lemma first_some_map_Some:
  "first_some (map f xs) = Some r \<Longrightarrow> \<exists>x\<in>set xs. f x = Some r"
  by (induction xs) (auto split: option.splits elim: first_some.elims)

lemma first_some_map_None:
  "(first_some (map f xs) = None) = (\<forall>x\<in>set xs. f x = None)"
proof (induction xs)
  case Nil show ?case by simp
next
  case (Cons x xs)
  then show ?case by (cases "f x") auto
qed

lemma first_some_head:
  "xs = x # ys \<Longrightarrow> f x = Some r \<Longrightarrow> first_some (map f xs) = Some r"
  by simp

lemma cuts_run:
  assumes "run \<noteq> []" "list_all (in_cls k) run"
    and "case rest of [] \<Rightarrow> True | c # _ \<Rightarrow> \<not> in_cls k c"
  shows "\<exists>ys. cuts k (run @ rest) = length run # ys"
proof -
  have "takeWhile (in_cls k) rest = []"
    using assms(3) by (cases rest) auto
  then have "takeWhile (in_cls k) (run @ rest) = run"
    using assms(2) by (simp add: takeWhile_append2 list_all_iff)
  then have "cuts k (run @ rest) = rev [1..<Suc (length run)]"
    by (simp add: cuts_def)
  moreover have "0 < length run" using assms(1) by simp
  ultimately show ?thesis by (cases "length run") auto
qed

lemma set_cuts: "set (cuts k s) = {j. 1 \<le> j \<and> j \<le> length (takeWhile (in_cls k) s)}"
  by (auto simp: cuts_def)

lemma take_in_cls:
  "j \<le> length (takeWhile P s) \<Longrightarrow> list_all P (take j s)"
proof -
  assume j: "j \<le> length (takeWhile P s)"
  have "take j s = take j (takeWhile P s)"
    using j by (metis takeWhile_dropWhile_id take_append diff_is_0_eq take_0 append_Nil2)
  moreover have "list_all P (takeWhile P s)"
    by (simp add: list_all_iff) (metis set_takeWhileD)
  ultimately show ?thesis
    by (metis list_all_iff in_set_takeD)
qed

lemma rx_match_lits:
  "list_all2 ci_eq p x \<Longrightarrow> rx_match (map Lit p @ ts) (x @ s) caps = rx_match ts s caps"
  by (induction p x rule: list_all2_induct) auto

lemma rx_match_lits_inv:
  "rx_match (map Lit p @ ts) s caps = Some r \<Longrightarrow>
   \<exists>x rest. s = x @ rest \<and> list_all2 ci_eq p x \<and> rx_match ts rest caps = Some r"
proof (induction p arbitrary: s)
  case Nil
  then show ?case by auto
next
  case (Cons a p)
  then obtain c cs where s: "s = c # cs" and c: "ci_eq a c"
    and m: "rx_match (map Lit p @ ts) cs caps = Some r"
    by (auto split: list.splits if_splits)
  from Cons.IH [OF m] obtain x rest where "cs = x @ rest" "list_all2 ci_eq p x"
    "rx_match ts rest caps = Some r" by blast
  with s c show ?case
    by (intro exI [of _ "c # x"] exI [of _ rest]) simp
qed

lemma rx_match_plus_greedy:
  assumes "run \<noteq> []" "list_all (in_cls k) run"
    and "case rest of [] \<Rightarrow> True | c # _ \<Rightarrow> \<not> in_cls k c"
    and "rx_match ts rest caps = Some r"
  shows "rx_match (Plus k # ts) (run @ rest) caps = Some r"
proof -
  from cuts_run [OF assms(1-3)] obtain ys where "cuts k (run @ rest) = length run # ys" ..
  then show ?thesis using assms(4) by simp
qed

lemma rx_match_grp_greedy:
  assumes "run \<noteq> []" "list_all (in_cls k) run"
    and "case rest of [] \<Rightarrow> True | c # _ \<Rightarrow> \<not> in_cls k c"
    and "rx_match ts rest (caps @ [run]) = Some r"
  shows "rx_match (Grp k # ts) (run @ rest) caps = Some r"
proof -
  from cuts_run [OF assms(1-3)] obtain ys where "cuts k (run @ rest) = length run # ys" ..
  then show ?thesis using assms(4) by simp
qed

lemma rx_match_plus_inv:
  assumes "rx_match (Plus k # ts) s caps = Some r"
  shows "\<exists>run rest. s = run @ rest \<and> run \<noteq> [] \<and> list_all (in_cls k) run \<and>
           rx_match ts rest caps = Some r"
proof -
  from assms obtain j where j: "j \<in> set (cuts k s)" and m: "rx_match ts (drop j s) caps = Some r"
    by (auto dest: first_some_map_Some)
  from j have j1: "1 \<le> j" and j2: "j \<le> length (takeWhile (in_cls k) s)"
    by (auto simp: set_cuts)
  have "j \<le> length s" using j2 length_takeWhile_le [of "in_cls k" s] by linarith
  with j1 have "take j s \<noteq> []" by (cases s) auto
  with m take_in_cls [OF j2] show ?thesis
    by (intro exI [of _ "take j s"] exI [of _ "drop j s"]) simp
qed

lemma rx_match_grp_inv:
  assumes "rx_match (Grp k # ts) s caps = Some r"
  shows "\<exists>run rest. s = run @ rest \<and> run \<noteq> [] \<and> list_all (in_cls k) run \<and>
           rx_match ts rest (caps @ [run]) = Some r"
proof -
  from assms obtain j where j: "j \<in> set (cuts k s)"
    and m: "rx_match ts (drop j s) (caps @ [take j s]) = Some r"
    by (auto dest: first_some_map_Some)
  from j have j1: "1 \<le> j" and j2: "j \<le> length (takeWhile (in_cls k) s)"
    by (auto simp: set_cuts)
  have "j \<le> length s" using j2 length_takeWhile_le [of "in_cls k" s] by linarith
  with j1 have "take j s \<noteq> []" by (cases s) auto
  with m take_in_cls [OF j2] show ?thesis
    by (intro exI [of _ "take j s"] exI [of _ "drop j s"]) simp
qed

lemma rx_match_last_grp:
  "rx_match [Grp k] s caps =
     (if takeWhile (in_cls k) s = [] then None else Some (caps @ [takeWhile (in_cls k) s]))"
proof (cases "takeWhile (in_cls k) s = []")
  case True
  then show ?thesis by (simp add: cuts_def)
next
  case False
  let ?n = "length (takeWhile (in_cls k) s)"
  from False have "0 < ?n" by simp
  then obtain ys where "cuts k s = ?n # ys"
    by (cases ?n) (auto simp: cuts_def)
  moreover have "take ?n s = takeWhile (in_cls k) s"
    by (metis takeWhile_eq_take)
  ultimately show ?thesis using False by simp
qed

lemma rx_search_Some:
  "(rx_search ts s = Some r) =
   (\<exists>i\<le>length s. rx_match ts (drop i s) [] = Some r \<and>
      (\<forall>j<i. rx_match ts (drop j s) [] = None))"
proof (induction s)
  case Nil
  show ?case by simp
next
  case (Cons c cs)
  show ?case
  proof (cases "rx_match ts (c # cs) []")
    case (Some r')
    have "(\<exists>i\<le>length (c # cs). rx_match ts (drop i (c # cs)) [] = Some r \<and>
      (\<forall>j<i. rx_match ts (drop j (c # cs)) [] = None)) = (r' = r)"
    proof
      assume "\<exists>i\<le>length (c # cs). rx_match ts (drop i (c # cs)) [] = Some r \<and>
        (\<forall>j<i. rx_match ts (drop j (c # cs)) [] = None)"
      then obtain i where i: "rx_match ts (drop i (c # cs)) [] = Some r"
        "\<forall>j<i. rx_match ts (drop j (c # cs)) [] = None" by blast
      have "i = 0"
      proof (rule ccontr)
        assume "i \<noteq> 0"
        then have "rx_match ts (drop 0 (c # cs)) [] = None" using i(2) by blast
        with Some show False by simp
      qed
      with i Some show "r' = r" by simp
    next
      assume "r' = r"
      with Some show "\<exists>i\<le>length (c # cs). rx_match ts (drop i (c # cs)) [] = Some r \<and>
        (\<forall>j<i. rx_match ts (drop j (c # cs)) [] = None)"
        by (intro exI [of _ 0]) simp
    qed
    with Some show ?thesis by simp
  next
    case None
    have "(\<exists>i\<le>length (c # cs). rx_match ts (drop i (c # cs)) [] = Some r \<and>
      (\<forall>j<i. rx_match ts (drop j (c # cs)) [] = None)) =
      (\<exists>i\<le>length cs. rx_match ts (drop i cs) [] = Some r \<and>
      (\<forall>j<i. rx_match ts (drop j cs) [] = None))" (is "?L = ?R")
    proof
      assume ?L
      then obtain i where i: "i \<le> length (c # cs)" "rx_match ts (drop i (c # cs)) [] = Some r"
        "\<forall>j<i. rx_match ts (drop j (c # cs)) [] = None" by blast
      with None obtain i' where i': "i = Suc i'" by (cases i) auto
      have "\<forall>j<i'. rx_match ts (drop j cs) [] = None"
      proof (intro allI impI)
        fix j assume "j < i'"
        then have "Suc j < i" using i' by simp
        with i(3) have "rx_match ts (drop (Suc j) (c # cs)) [] = None" by blast
        then show "rx_match ts (drop j cs) [] = None" by simp
      qed
      with i i' show ?R by (intro exI [of _ i']) simp
    next
      assume ?R
      then obtain i where i: "i \<le> length cs" "rx_match ts (drop i cs) [] = Some r"
        "\<forall>j<i. rx_match ts (drop j cs) [] = None" by blast
      have "\<forall>j<Suc i. rx_match ts (drop j (c # cs)) [] = None"
      proof (intro allI impI)
        fix j assume j: "j < Suc i"
        show "rx_match ts (drop j (c # cs)) [] = None"
        proof (cases j)
          case 0 with None show ?thesis by simp
        next
          case (Suc j')
          with j i(3) show ?thesis by simp
        qed
      qed
      with i show ?L by (intro exI [of _ "Suc i"]) simp
    qed
    with None Cons.IH show ?thesis by simp
  qed
qed

subsection \<open>The first pattern\<close>

lemma to_lower_cases:
  "to_lower c = c \<or>
   (c, to_lower c) \<in> set (zip ''ABCDEFGHIJKLMNOPQRSTUVWXYZ'' ''abcdefghijklmnopqrstuvwxyz'')"
  unfolding to_lower_def by (auto split: option.splits dest: map_of_SomeD)

lemma is_space_to_lower: "is_space (to_lower c) = is_space c"
  using to_lower_cases [of c] by (auto simp: is_space_def)

lemma is_digit_to_lower: "is_digit (to_lower c) = is_digit c"
  using to_lower_cases [of c] by (auto simp: is_digit_def)

lemma digit_not_space: "is_digit c \<Longrightarrow> \<not> is_space c"
  by (auto simp: is_digit_def is_space_def Let_def)

lemma lits_ci: "list_all2 ci_eq p x = (map to_lower x = map to_lower p)"
proof (induction p arbitrary: x)
  case Nil show ?case by auto
next
  case (Cons a p)
  show ?case by (cases x) (simp_all add: Cons.IH, auto simp: ci_eq_def)
qed


lemma in_cls_Digit: "in_cls Digit = is_digit"
  by (rule ext) simp

lemma in_cls_Space: "in_cls Space = is_space"
  by (rule ext) simp

lemma space_not_digit: "is_space c \<Longrightarrow> \<not> is_digit c"
  using digit_not_space by blast

lemma starts_digit_not_space:
  "a \<noteq> [] \<Longrightarrow> list_all is_digit a \<Longrightarrow> case a @ s of [] \<Rightarrow> True | c # _ \<Rightarrow> \<not> is_space c"
  by (cases a) (auto simp: digit_not_space)

lemma starts_space_not_digit:
  "a \<noteq> [] \<Longrightarrow> list_all is_space a \<Longrightarrow> case a @ s of [] \<Rightarrow> True | c # _ \<Rightarrow> \<not> is_digit c"
  by (cases a) (auto simp: space_not_digit)

lemma starts_address_not_space:
  "map to_lower kw = ''address'' \<Longrightarrow> case kw @ s of [] \<Rightarrow> True | c # _ \<Rightarrow> \<not> is_space c"
proof (cases kw)
  case Nil
  assume "map to_lower kw = ''address''"
  with Nil show ?thesis by simp
next
  case (Cons c cs)
  assume "map to_lower kw = ''address''"
  with Cons have "to_lower c = CHR ''a''" by simp
  then have "is_space c = is_space (CHR ''a'')"
    using is_space_to_lower [of c] by simp
  then show ?thesis using Cons by (simp add: is_space_def)
qed

lemma lower_subpanel: "map to_lower ''subpanel'' = ''subpanel''"
  by code_simp

lemma lower_address: "map to_lower ''Address'' = ''address''"
  by code_simp

lemma plus_space_greedy:
  assumes "run \<noteq> []" "list_all is_space run"
    and "case rest of [] \<Rightarrow> True | c # _ \<Rightarrow> \<not> is_space c"
    and "rx_match ts rest caps = Some r"
  shows "rx_match (Plus Space # ts) (run @ rest) caps = Some r"
proof (rule rx_match_plus_greedy)
  show "list_all (in_cls Space) run" using assms(2) by (simp only: in_cls_Space)
  show "case rest of [] \<Rightarrow> True | c # _ \<Rightarrow> \<not> in_cls Space c"
    using assms(3) by (simp only: in_cls.simps)
qed (fact assms)+

lemma grp_digit_greedy:
  assumes "run \<noteq> []" "list_all is_digit run"
    and "case rest of [] \<Rightarrow> True | c # _ \<Rightarrow> \<not> is_digit c"
    and "rx_match ts rest (caps @ [run]) = Some r"
  shows "rx_match (Grp Digit # ts) (run @ rest) caps = Some r"
proof (rule rx_match_grp_greedy)
  show "list_all (in_cls Digit) run" using assms(2) by (simp only: in_cls_Digit)
  show "case rest of [] \<Rightarrow> True | c # _ \<Rightarrow> \<not> in_cls Digit c"
    using assms(3) by (simp only: in_cls.simps)
qed (fact assms)+

lemma pattern1_match_if_occurs:
  assumes "occurs1 s a b"
  shows "rx_match pattern1 s [] = Some [a, b]"
proof -
  from assms obtain kw1 ws1 ws2 kw2 ws3 rest where
    s: "s = kw1 @ ws1 @ a @ ws2 @ kw2 @ ws3 @ b @ rest"
    and kw1: "map to_lower kw1 = ''subpanel''"
    and ws1: "ws1 \<noteq> []" "list_all is_space ws1"
    and a: "a \<noteq> []" "list_all is_digit a"
    and ws2: "ws2 \<noteq> []" "list_all is_space ws2"
    and kw2: "map to_lower kw2 = ''address''"
    and ws3: "ws3 \<noteq> []" "list_all is_space ws3"
    and b: "b \<noteq> []" "list_all is_digit b"
    and rest: "case rest of [] \<Rightarrow> True | c # _ \<Rightarrow> \<not> is_digit c"
    unfolding occurs1_def by (elim exE conjE)
  have kw1': "list_all2 ci_eq ''subpanel'' kw1"
    unfolding lits_ci lower_subpanel by (rule kw1)
  have kw2': "list_all2 ci_eq ''Address'' kw2"
    unfolding lits_ci lower_address by (rule kw2)
  have m7: "rx_match [Grp Digit] (b @ rest) [a] = Some [a, b]"
    by (rule grp_digit_greedy [OF b rest]) (simp only: rx_match.simps append.simps)
  have m6: "rx_match [Plus Space, Grp Digit] (ws3 @ b @ rest) [a] = Some [a, b]"
    by (rule plus_space_greedy [OF ws3 starts_digit_not_space [OF b] m7])
  have m5: "rx_match (map Lit ''Address'' @ [Plus Space, Grp Digit])
              (kw2 @ ws3 @ b @ rest) [a] = Some [a, b]"
    unfolding rx_match_lits [OF kw2'] by (rule m6)
  have m4: "rx_match (Plus Space # map Lit ''Address'' @ [Plus Space, Grp Digit])
              (ws2 @ kw2 @ ws3 @ b @ rest) [a] = Some [a, b]"
    by (rule plus_space_greedy [OF ws2 starts_address_not_space [OF kw2] m5])
  have m3: "rx_match (Grp Digit # Plus Space # map Lit ''Address'' @ [Plus Space, Grp Digit])
              (a @ ws2 @ kw2 @ ws3 @ b @ rest) [] = Some [a, b]"
    by (rule grp_digit_greedy [OF a starts_space_not_digit [OF ws2]])
       (simp only: append_Nil m4)
  have m2: "rx_match (Plus Space # Grp Digit # Plus Space #
                map Lit ''Address'' @ [Plus Space, Grp Digit])
              (ws1 @ a @ ws2 @ kw2 @ ws3 @ b @ rest) [] = Some [a, b]"
    by (rule plus_space_greedy [OF ws1 starts_digit_not_space [OF a] m3])
  have "rx_match (map Lit ''subpanel'' @ Plus Space # Grp Digit # Plus Space #
                map Lit ''Address'' @ [Plus Space, Grp Digit])
              (kw1 @ ws1 @ a @ ws2 @ kw2 @ ws3 @ b @ rest) [] = Some [a, b]"
    unfolding rx_match_lits [OF kw1'] by (rule m2)
  then show ?thesis by (simp only: pattern1_def s append.simps)
qed

lemma pattern1_occurs_if_match:
  assumes "rx_match pattern1 s [] = Some r"
  shows "\<exists>a b. r = [a, b] \<and> occurs1 s a b"
proof -
  from assms have "rx_match (map Lit ''subpanel'' @ Plus Space # Grp Digit # Plus Space #
                map Lit ''Address'' @ [Plus Space, Grp Digit]) s [] = Some r"
    by (simp only: pattern1_def append.simps)
  from rx_match_lits_inv [OF this] obtain kw1 s1 where
    s: "s = kw1 @ s1" and kw1: "list_all2 ci_eq ''subpanel'' kw1"
    and m1: "rx_match (Plus Space # Grp Digit # Plus Space #
                map Lit ''Address'' @ [Plus Space, Grp Digit]) s1 [] = Some r" by blast
  from rx_match_plus_inv [OF m1] obtain ws1 s2 where
    s1: "s1 = ws1 @ s2" and ws1: "ws1 \<noteq> []" "list_all (in_cls Space) ws1"
    and m2: "rx_match (Grp Digit # Plus Space #
                map Lit ''Address'' @ [Plus Space, Grp Digit]) s2 [] = Some r" by blast
  from rx_match_grp_inv [OF m2] obtain a s3 where
    s2: "s2 = a @ s3" and a: "a \<noteq> []" "list_all (in_cls Digit) a"
    and m3: "rx_match (Plus Space # map Lit ''Address'' @ [Plus Space, Grp Digit]) s3 ([] @ [a])
             = Some r" by blast
  from rx_match_plus_inv [OF m3] obtain ws2 s4 where
    s3: "s3 = ws2 @ s4" and ws2: "ws2 \<noteq> []" "list_all (in_cls Space) ws2"
    and m4: "rx_match (map Lit ''Address'' @ [Plus Space, Grp Digit]) s4 ([] @ [a]) = Some r"
    by blast
  from rx_match_lits_inv [OF m4] obtain kw2 s5 where
    s4: "s4 = kw2 @ s5" and kw2: "list_all2 ci_eq ''Address'' kw2"
    and m5: "rx_match [Plus Space, Grp Digit] s5 ([] @ [a]) = Some r" by blast
  from rx_match_plus_inv [OF m5] obtain ws3 s6 where
    s5: "s5 = ws3 @ s6" and ws3: "ws3 \<noteq> []" "list_all (in_cls Space) ws3"
    and m6: "rx_match [Grp Digit] s6 ([] @ [a]) = Some r" by blast
  let ?b = "takeWhile is_digit s6"
  let ?rest = "dropWhile is_digit s6"
  from m6 have b: "?b \<noteq> []" and r: "r = [a, ?b]"
    unfolding rx_match_last_grp in_cls_Digit by (auto split: if_splits)
  have eq: "s = kw1 @ ws1 @ a @ ws2 @ kw2 @ ws3 @ ?b @ ?rest"
    using s s1 s2 s3 s4 s5 by simp
  have rest: "case ?rest of [] \<Rightarrow> True | c # _ \<Rightarrow> \<not> is_digit c"
  proof (cases ?rest)
    case Nil
    show ?thesis unfolding Nil by simp
  next
    case (Cons c cs)
    then have "?rest \<noteq> []" by (simp only: list.distinct not_False_eq_True)
    from hd_dropWhile [OF this] show ?thesis unfolding Cons by simp
  qed
  have ball: "list_all is_digit ?b"
    by (simp add: list_all_iff) (metis set_takeWhileD)
  have "occurs1 s a ?b"
    unfolding occurs1_def
  proof (intro exI conjI)
    show "s = kw1 @ ws1 @ a @ ws2 @ kw2 @ ws3 @ ?b @ ?rest" by (rule eq)
    show "map to_lower kw1 = ''subpanel''"
      using kw1 unfolding lits_ci lower_subpanel .
    show "map to_lower kw2 = ''address''"
      using kw2 unfolding lits_ci lower_address .
    show "list_all is_space ws1" "list_all is_space ws2" "list_all is_space ws3"
      using ws1 ws2 ws3 by (simp_all only: in_cls_Space)
    show "list_all is_digit a" using a by (simp only: in_cls_Digit)
  qed (use ws1 ws2 ws3 a b ball rest in blast)+
  with r show ?thesis by blast
qed

lemma occurs1_digits:
  "occurs1 s a b \<Longrightarrow> a \<noteq> [] \<and> list_all is_digit a \<and> b \<noteq> [] \<and> list_all is_digit b"
  unfolding occurs1_def by (elim exE conjE) simp

lemma rx_search_None:
  "(rx_search ts s = None) = (\<forall>i\<le>length s. rx_match ts (drop i s) [] = None)"
proof (induction s)
  case Nil
  show ?case by simp
next
  case (Cons c cs)
  have "(\<forall>i\<le>length (c # cs). rx_match ts (drop i (c # cs)) [] = None) =
        (rx_match ts (c # cs) [] = None \<and> (\<forall>i\<le>length cs. rx_match ts (drop i cs) [] = None))"
    (is "?L = ?R")
  proof
    assume l: ?L
    have "rx_match ts (drop 0 (c # cs)) [] = None" using l by blast
    moreover have "rx_match ts (drop i cs) [] = None" if "i \<le> length cs" for i
    proof -
      from that have "Suc i \<le> length (c # cs)" by simp
      with l have "rx_match ts (drop (Suc i) (c # cs)) [] = None" by blast
      then show ?thesis by simp
    qed
    ultimately show ?R by simp
  next
    assume r: ?R
    show ?L
    proof (intro allI impI)
      fix i assume "i \<le> length (c # cs)"
      then show "rx_match ts (drop i (c # cs)) [] = None"
        using r by (cases i) auto
    qed
  qed
  with Cons.IH show ?case by (cases "rx_match ts (c # cs) []") auto
qed

lemma py_int_digits: "s \<noteq> [] \<Longrightarrow> list_all is_digit s \<Longrightarrow> \<exists>n. py_int s = Some n"
  by (simp add: py_int_def)

lemma extract_field_first:
  "rx_search pattern1 t = Some [g1, g2] \<Longrightarrow>
   extract_field t = \<lparr>subpanel = py_int g1, address = py_int g2, raw = t\<rparr>"
  by (simp add: extract_field_def)

lemma extract_field_second:
  "rx_search pattern1 t = None \<Longrightarrow> rx_search pattern2 t = Some [g1, g2] \<Longrightarrow>
   extract_field t = \<lparr>subpanel = py_int g1, address = py_int g2, raw = t\<rparr>"
  by (simp add: extract_field_def)

lemma extract_field_neither:
  "rx_search pattern1 t = None \<Longrightarrow> rx_search pattern2 t = None \<Longrightarrow>
   extract_field t = \<lparr>subpanel = None, address = None, raw = t\<rparr>"
  by (simp add: extract_field_def)

lemma raw_extract_field: "raw (extract_field t) = t"
  by (simp add: extract_field_def Let_def split: option.splits list.splits)

lemma pattern1_search_leftmost:
  assumes occ: "occurs1 (drop i text) a b" and i: "i \<le> length text"
    and first: "\<forall>j<i. \<forall>a' b'. \<not> occurs1 (drop j text) a' b'"
  shows "rx_search pattern1 text = Some [a, b]"
proof -
  have "rx_match pattern1 (drop i text) [] = Some [a, b]"
    using occ by (rule pattern1_match_if_occurs)
  moreover have "rx_match pattern1 (drop j text) [] = None" if "j < i" for j
  proof (cases "rx_match pattern1 (drop j text) []")
    case None then show ?thesis .
  next
    case (Some r)
    from pattern1_occurs_if_match [OF Some] first that show ?thesis by blast
  qed
  ultimately show ?thesis
    unfolding rx_search_Some using i by blast
qed

lemma pattern1_search_none:
  assumes "\<forall>i\<le>length text. \<forall>a b. \<not> occurs1 (drop i text) a b"
  shows "rx_search pattern1 text = None"
  unfolding rx_search_None
proof (intro allI impI)
  fix i assume i: "i \<le> length text"
  show "rx_match pattern1 (drop i text) [] = None"
  proof (cases "rx_match pattern1 (drop i text) []")
    case None then show ?thesis .
  next
    case (Some r)
    from pattern1_occurs_if_match [OF Some] assms i show ?thesis by blast
  qed
qed

text \<open>
  Claim C6, as the code has it. When the word subpanel, whitespace, an integer, whitespace,
  the word Address, whitespace and an integer follow one another in the text, in any letter
  case and with nothing but whitespace in between, the first pattern matches; the extractor
  then takes subpanel and address from the leftmost such occurrence, the address being the
  longest run of digits there. When the text has no such occurrence, the first pattern does
  not match.
\<close>

theorem pattern1_leftmost_occurrence:
  "(occurs1 (drop i text) a b \<and> i \<le> length text \<and>
    (\<forall>j<i. \<forall>a' b'. \<not> occurs1 (drop j text) a' b') \<longrightarrow>
      rx_search pattern1 text = Some [a, b] \<and>
      (\<exists>sp ad. py_int a = Some sp \<and> py_int b = Some ad \<and>
         extract_field text = \<lparr>subpanel = Some sp, address = Some ad, raw = text\<rparr>)) \<and>
   ((\<forall>i\<le>length text. \<forall>a b. \<not> occurs1 (drop i text) a b) \<longrightarrow>
      rx_search pattern1 text = None)"
proof (intro conjI impI)
  assume h: "occurs1 (drop i text) a b \<and> i \<le> length text \<and>
    (\<forall>j<i. \<forall>a' b'. \<not> occurs1 (drop j text) a' b')"
  then show s: "rx_search pattern1 text = Some [a, b]"
    using pattern1_search_leftmost by blast
  from h occurs1_digits obtain sp ad where "py_int a = Some sp" "py_int b = Some ad"
    using py_int_digits by meson
  with extract_field_first [OF s]
  show "\<exists>sp ad. py_int a = Some sp \<and> py_int b = Some ad \<and>
         extract_field text = \<lparr>subpanel = Some sp, address = Some ad, raw = text\<rparr>"
    by simp
next
  assume "\<forall>i\<le>length text. \<forall>a b. \<not> occurs1 (drop i text) a b"
  then show "rx_search pattern1 text = None" by (rule pattern1_search_none)
qed


theorem pattern1_leftmost_occurrence_witness:
  "rx_search pattern1 ''Reader on SubPanel  3 ADDRESS 12 (x)'' = Some [''3'', ''12''] \<and>
   extract_field ''Reader on SubPanel  3 ADDRESS 12 (x)'' =
     \<lparr>subpanel = Some 3, address = Some 12, raw = ''Reader on SubPanel  3 ADDRESS 12 (x)''\<rparr> \<and>
   rx_search pattern1 ''no hardware'' = None"
proof -
  let ?t = "''Reader on SubPanel  3 ADDRESS 12 (x)''"
  have d: "drop 10 ?t = ''SubPanel'' @ ''  '' @ ''3'' @ '' '' @ ''ADDRESS'' @ '' '' @ ''12'' @ '' (x)''"
    by simp
  have occ: "occurs1 (drop 10 ?t) ''3'' ''12''"
    unfolding occurs1_def d
    apply (rule exI [of _ "''SubPanel''"], rule exI [of _ "''  ''"], rule exI [of _ "'' ''"],
        rule exI [of _ "''ADDRESS''"], rule exI [of _ "'' ''"], rule exI [of _ "'' (x)''"])
    apply (intro conjI)
                 apply (rule refl)
    by code_simp+
  have "\<forall>j\<in>set [0..<10]. rx_match pattern1 (drop j ?t) [] = None"
    by code_simp
  then have none: "\<forall>j<10. \<forall>a' b'. \<not> occurs1 (drop j ?t) a' b'"
    using pattern1_match_if_occurs by fastforce
  have len: "(10::nat) \<le> length ?t" by simp
  from pattern1_leftmost_occurrence [of 10 ?t "''3''" "''12''", THEN conjunct1] occ len none
  have s: "rx_search pattern1 ?t = Some [''3'', ''12'']"
    and "\<exists>sp ad. py_int ''3'' = Some sp \<and> py_int ''12'' = Some ad \<and>
         extract_field ?t = \<lparr>subpanel = Some sp, address = Some ad, raw = ?t\<rparr>"
    by blast+
  moreover have "py_int ''3'' = Some 3" "py_int ''12'' = Some 12" by code_simp+
  ultimately have e: "extract_field ?t = \<lparr>subpanel = Some 3, address = Some 12, raw = ?t\<rparr>"
    by auto
  have "\<forall>j\<in>set [0..<12]. rx_match pattern1 (drop j ''no hardware'') [] = None"
    by code_simp
  then have "\<forall>i\<le>length ''no hardware''. \<forall>a b. \<not> occurs1 (drop i ''no hardware'') a b"
    using pattern1_match_if_occurs by fastforce
  with pattern1_leftmost_occurrence [of 0 "''no hardware''" "[]" "[]", THEN conjunct2]
  have "rx_search pattern1 ''no hardware'' = None" by blast
  with s e show ?thesis by blast
qed

text \<open>Other text between the subpanel number and the word Address: no match.\<close>

theorem intervening_text_counterexample:
  "rx_search pattern1 ''subpanel 3, door 4, Address 12'' = None \<and>
   extract_field ''subpanel 3, door 4, Address 12'' =
     \<lparr>subpanel = None, address = None, raw = ''subpanel 3, door 4, Address 12''\<rparr>"
  by code_simp

subsection \<open>The field extractor on the two sample texts\<close>

lemma to_lower_fix:
  "to_lower c = d \<Longrightarrow> d \<notin> set ''abcdefghijklmnopqrstuvwxyz'' \<Longrightarrow> c = d"
  using to_lower_cases [of c] by (auto dest: set_zip_rightD)

lemma map_to_lower_fix:
  "map to_lower w = l \<Longrightarrow> set l \<inter> set ''abcdefghijklmnopqrstuvwxyz'' = {} \<Longrightarrow> w = l"
proof (induction w arbitrary: l)
  case Nil then show ?case by simp
next
  case (Cons c w)
  then obtain d l' where l: "l = d # l'" and d: "to_lower c = d" and w: "map to_lower w = l'"
    by auto
  from Cons.prems(2) l have "d \<notin> set ''abcdefghijklmnopqrstuvwxyz''"
    and "set l' \<inter> set ''abcdefghijklmnopqrstuvwxyz'' = {}" by auto
  with to_lower_fix [OF d] Cons.IH [OF w] l show ?case by simp
qed

lemma is_word_to_lower: "is_word (to_lower c) = is_word c"
  using to_lower_cases [of c] by (auto simp: is_word_def)

lemma map_split:
  "map f x = a @ r \<Longrightarrow> \<exists>x1 x2. x = x1 @ x2 \<and> map f x1 = a \<and> map f x2 = r"
  by (auto simp: map_eq_append_conv)

lemma any_casing_occurs1:
  assumes X: "map to_lower X = ''subpanel 3 address 12''"
    and post: "case post of [] \<Rightarrow> True | c # _ \<Rightarrow> \<not> is_digit c"
  shows "occurs1 (X @ post) ''3'' ''12''"
proof -
  have "map to_lower X = ''subpanel'' @ '' '' @ ''3'' @ '' '' @ ''address'' @ '' '' @ ''12''"
    using X by simp
  from map_split [OF this] obtain kw1 x1 where x: "X = kw1 @ x1"
    and kw1: "map to_lower kw1 = ''subpanel''"
    and r1: "map to_lower x1 = '' '' @ ''3'' @ '' '' @ ''address'' @ '' '' @ ''12''" by (elim exE conjE)
  from map_split [OF r1] obtain ws1 x2 where x1: "x1 = ws1 @ x2"
    and ws1: "map to_lower ws1 = '' ''"
    and r2: "map to_lower x2 = ''3'' @ '' '' @ ''address'' @ '' '' @ ''12''" by (elim exE conjE)
  from map_split [OF r2] obtain a x3 where x2: "x2 = a @ x3"
    and a: "map to_lower a = ''3''"
    and r3: "map to_lower x3 = '' '' @ ''address'' @ '' '' @ ''12''" by (elim exE conjE)
  from map_split [OF r3] obtain ws2 x4 where x3: "x3 = ws2 @ x4"
    and ws2: "map to_lower ws2 = '' ''"
    and r4: "map to_lower x4 = ''address'' @ '' '' @ ''12''" by (elim exE conjE)
  from map_split [OF r4] obtain kw2 x5 where x4: "x4 = kw2 @ x5"
    and kw2: "map to_lower kw2 = ''address''"
    and r5: "map to_lower x5 = '' '' @ ''12''" by (elim exE conjE)
  from map_split [OF r5] obtain ws3 b where x5: "x5 = ws3 @ b"
    and ws3: "map to_lower ws3 = '' ''"
    and b: "map to_lower b = ''12''" by (elim exE conjE)
  have e1: "ws1 = '' ''" by (rule map_to_lower_fix [OF ws1]) simp
  have e2: "ws2 = '' ''" by (rule map_to_lower_fix [OF ws2]) simp
  have e3: "ws3 = '' ''" by (rule map_to_lower_fix [OF ws3]) simp
  have e4: "a = ''3''" by (rule map_to_lower_fix [OF a]) simp
  have e5: "b = ''12''" by (rule map_to_lower_fix [OF b]) simp
  have eq: "X @ post = kw1 @ '' '' @ ''3'' @ '' '' @ kw2 @ '' '' @ ''12'' @ post"
    by (simp only: x x1 x2 x3 x4 x5 e1 e2 e3 e4 e5 append_assoc)
  show ?thesis
    unfolding occurs1_def
  proof (intro exI conjI)
    show "X @ post = kw1 @ '' '' @ ''3'' @ '' '' @ kw2 @ '' '' @ ''12'' @ post" by (rule eq)
    show "map to_lower kw1 = ''subpanel''" by (rule kw1)
    show "map to_lower kw2 = ''address''" by (rule kw2)
    show "case post of [] \<Rightarrow> True | c # _ \<Rightarrow> \<not> is_digit c" by (rule post)
    show "list_all is_space '' ''" by code_simp
    show "list_all is_digit ''3''" by code_simp
    show "list_all is_digit ''12''" by code_simp
  qed (simp_all add: is_space_def)
qed


lemma opt_taken:
  "ci_eq p c \<Longrightarrow> rx_match ts cs caps = Some r \<Longrightarrow> rx_match (Opt p # ts) (c # cs) caps = Some r"
  by simp

lemma map_to_lower_word:
  "map to_lower w = l \<Longrightarrow> list_all is_word l \<Longrightarrow> list_all is_word w"
proof (induction w arbitrary: l)
  case Nil then show ?case by simp
next
  case (Cons c w)
  then obtain d l' where l: "l = d # l'" and d: "to_lower c = d" and w: "map to_lower w = l'"
    by auto
  from Cons.prems(2) l have "is_word d" "list_all is_word l'" by auto
  with Cons.IH [OF w] d is_word_to_lower [of c] show ?case by simp
qed

lemma lower_subpanel_colon: "map to_lower ''Subpanel:'' = ''subpanel:''"
  by code_simp

lemma any_casing_pattern2:
  assumes Y: "map to_lower Y = ''subpanel:2 input:5''"
    and post: "case post of [] \<Rightarrow> True | c # _ \<Rightarrow> \<not> is_digit c"
  shows "rx_match pattern2 (Y @ post) [] = Some [''2'', ''5'']"
proof -
  have "map to_lower Y = ''subpanel:'' @ ''2'' @ '' '' @ ''input'' @ '':'' @ ''5''"
    using Y by simp
  from map_split [OF this] obtain kw y1 where y: "Y = kw @ y1"
    and kw: "map to_lower kw = ''subpanel:''"
    and r1: "map to_lower y1 = ''2'' @ '' '' @ ''input'' @ '':'' @ ''5''" by (elim exE conjE)
  from map_split [OF r1] obtain a y2 where y1: "y1 = a @ y2"
    and a: "map to_lower a = ''2''"
    and r2: "map to_lower y2 = '' '' @ ''input'' @ '':'' @ ''5''" by (elim exE conjE)
  from map_split [OF r2] obtain ws y3 where y2: "y2 = ws @ y3"
    and ws: "map to_lower ws = '' ''"
    and r3: "map to_lower y3 = ''input'' @ '':'' @ ''5''" by (elim exE conjE)
  from map_split [OF r3] obtain w y4 where y3: "y3 = w @ y4"
    and w: "map to_lower w = ''input''"
    and r4: "map to_lower y4 = '':'' @ ''5''" by (elim exE conjE)
  from map_split [OF r4] obtain col b where y4: "y4 = col @ b"
    and col: "map to_lower col = '':''"
    and b: "map to_lower b = ''5''" by (elim exE conjE)
  have e1: "a = ''2''" by (rule map_to_lower_fix [OF a]) simp
  have e2: "ws = '' ''" by (rule map_to_lower_fix [OF ws]) simp
  have e3: "col = '':''" by (rule map_to_lower_fix [OF col]) simp
  have e4: "b = ''5''" by (rule map_to_lower_fix [OF b]) simp
  have eq: "Y @ post = kw @ ''2'' @ '' '' @ w @ CHR '':'' # ''5'' @ post"
    by (simp only: y y1 y2 y3 y4 e1 e2 e3 e4 append_assoc append_Cons append_Nil)
  have kw': "list_all2 ci_eq ''Subpanel:'' kw"
    unfolding lits_ci lower_subpanel_colon by (rule kw)
  have wne: "w \<noteq> []" using w by auto
  have ww: "list_all (in_cls Word) w"
  proof -
    have "list_all is_word w" by (rule map_to_lower_word [OF w]) code_simp
    moreover have "in_cls Word = is_word" by (rule ext) simp
    ultimately show ?thesis by simp
  qed
  have wstart: "case w @ s of [] \<Rightarrow> True | c # _ \<Rightarrow> \<not> is_space c" for s
  proof (cases w)
    case Nil with wne show ?thesis by simp
  next
    case (Cons c cs)
    with w have "to_lower c = CHR ''i''" by simp
    then have "is_space c = is_space (CHR ''i'')"
      using is_space_to_lower [of c] by simp
    then show ?thesis using Cons by (simp add: is_space_def)
  qed
  have n5: "rx_match [Grp Digit] (''5'' @ post) ([] @ [''2'']) = Some [''2'', ''5'']"
    by (rule grp_digit_greedy [OF _ _ post]) (simp_all add: is_digit_def)
  have n4: "rx_match [Opt (CHR '':''), Grp Digit] (CHR '':'' # ''5'' @ post) ([] @ [''2''])
            = Some [''2'', ''5'']"
    by (rule opt_taken [OF _ n5]) (simp add: ci_eq_def)
  have n3: "rx_match [Plus Word, Opt (CHR '':''), Grp Digit] (w @ CHR '':'' # ''5'' @ post)
              ([] @ [''2'']) = Some [''2'', ''5'']"
    by (rule rx_match_plus_greedy [OF wne ww _ n4]) (simp add: is_word_def)
  have n2: "rx_match [Plus Space, Plus Word, Opt (CHR '':''), Grp Digit]
              ('' '' @ w @ CHR '':'' # ''5'' @ post) ([] @ [''2'']) = Some [''2'', ''5'']"
    by (rule plus_space_greedy [OF _ _ wstart n3]) (simp_all add: is_space_def)
  have n1: "rx_match [Grp Digit, Plus Space, Plus Word, Opt (CHR '':''), Grp Digit]
              (''2'' @ '' '' @ w @ CHR '':'' # ''5'' @ post) [] = Some [''2'', ''5'']"
    by (rule grp_digit_greedy [OF _ _ _ n2]) (simp_all add: is_digit_def)
  have "rx_match (map Lit ''Subpanel:'' @
                   [Grp Digit, Plus Space, Plus Word, Opt (CHR '':''), Grp Digit])
          (kw @ ''2'' @ '' '' @ w @ CHR '':'' # ''5'' @ post) [] = Some [''2'', ''5'']"
    unfolding rx_match_lits [OF kw'] by (rule n1)
  then show ?thesis by (simp only: pattern2_def eq)
qed

lemma search_at:
  assumes "rx_match ts (drop i s) [] = Some r" "i \<le> length s"
    and "\<forall>j<i. rx_match ts (drop j s) [] = None"
  shows "rx_search ts s = Some r"
  unfolding rx_search_Some using assms by blast

lemma py_int_values:
  "py_int ''3'' = Some 3" "py_int ''12'' = Some 12" "py_int ''2'' = Some 2" "py_int ''5'' = Some 5"
  by code_simp+

lemma extract_first_casing:
  assumes t: "raw_value = pre @ X @ post" and X: "map to_lower X = ''subpanel 3 address 12''"
    and post: "case post of [] \<Rightarrow> True | c # _ \<Rightarrow> \<not> is_digit c"
    and none: "\<forall>j<length pre. rx_match pattern1 (drop j raw_value) [] = None"
  shows "extract_field raw_value = \<lparr>subpanel = Some 3, address = Some 12, raw = raw_value\<rparr>"
proof -
  have d: "drop (length pre) raw_value = X @ post" unfolding t by simp
  have "rx_match pattern1 (drop (length pre) raw_value) [] = Some [''3'', ''12'']"
    unfolding d by (rule pattern1_match_if_occurs [OF any_casing_occurs1 [OF X post]])
  moreover have "length pre \<le> length raw_value" unfolding t by simp
  ultimately have "rx_search pattern1 raw_value = Some [''3'', ''12'']"
    using none by (rule search_at)
  from extract_field_first [OF this] show ?thesis
    by (simp only: py_int_values)
qed

lemma extract_second_casing:
  assumes t: "raw_value = pre @ Y @ post" and Y: "map to_lower Y = ''subpanel:2 input:5''"
    and post: "case post of [] \<Rightarrow> True | c # _ \<Rightarrow> \<not> is_digit c"
    and p1: "rx_search pattern1 raw_value = None"
    and none: "\<forall>j<length pre. rx_match pattern2 (drop j raw_value) [] = None"
  shows "extract_field raw_value = \<lparr>subpanel = Some 2, address = Some 5, raw = raw_value\<rparr>"
proof -
  have d: "drop (length pre) raw_value = Y @ post" unfolding t by simp
  have "rx_match pattern2 (drop (length pre) raw_value) [] = Some [''2'', ''5'']"
    unfolding d by (rule any_casing_pattern2 [OF Y post])
  moreover have "length pre \<le> length raw_value" unfolding t by simp
  ultimately have "rx_search pattern2 raw_value = Some [''2'', ''5'']"
    using none by (rule search_at)
  from extract_field_second [OF p1 this] show ?thesis
    by (simp only: py_int_values)
qed

text \<open>
  Claim C1, as the code has it. Let the value text be \<open>pre @ X @ post\<close>, where \<open>X\<close> is
  \<^verbatim>\<open>subpanel 3 Address 12\<close> in any letter case, \<open>post\<close> does not begin with a digit, and
  the first pattern has no match that starts inside \<open>pre\<close>: the extractor returns subpanel
  3 and address 12. Let it be \<open>pre @ Y @ post\<close>, where \<open>Y\<close> is \<^verbatim>\<open>Subpanel:2 Input:5\<close> in
  any letter case, \<open>post\<close> does not begin with a digit, the first pattern matches nowhere
  and the second pattern has no match that starts inside \<open>pre\<close>: the extractor returns
  subpanel 2 and address 5. When neither pattern matches, subpanel and address are absent.
  In every case the raw text is the value text, unchanged.
\<close>

theorem extract_field_examples:
  "(raw_value = pre @ X @ post \<and> map to_lower X = ''subpanel 3 address 12'' \<and>
    (case post of [] \<Rightarrow> True | c # _ \<Rightarrow> \<not> is_digit c) \<and>
    (\<forall>j<length pre. rx_match pattern1 (drop j raw_value) [] = None) \<longrightarrow>
      extract_field raw_value = \<lparr>subpanel = Some 3, address = Some 12, raw = raw_value\<rparr>) \<and>
   (raw_value = pre @ Y @ post \<and> map to_lower Y = ''subpanel:2 input:5'' \<and>
    (case post of [] \<Rightarrow> True | c # _ \<Rightarrow> \<not> is_digit c) \<and>
    rx_search pattern1 raw_value = None \<and>
    (\<forall>j<length pre. rx_match pattern2 (drop j raw_value) [] = None) \<longrightarrow>
      extract_field raw_value = \<lparr>subpanel = Some 2, address = Some 5, raw = raw_value\<rparr>) \<and>
   (rx_search pattern1 raw_value = None \<and> rx_search pattern2 raw_value = None \<longrightarrow>
      extract_field raw_value = \<lparr>subpanel = None, address = None, raw = raw_value\<rparr>) \<and>
   raw (extract_field raw_value) = raw_value"
proof (intro conjI impI)
  assume h: "raw_value = pre @ X @ post \<and> map to_lower X = ''subpanel 3 address 12'' \<and>
    (case post of [] \<Rightarrow> True | c # _ \<Rightarrow> \<not> is_digit c) \<and>
    (\<forall>j<length pre. rx_match pattern1 (drop j raw_value) [] = None)"
  show "extract_field raw_value = \<lparr>subpanel = Some 3, address = Some 12, raw = raw_value\<rparr>"
    by (rule extract_first_casing [OF h [THEN conjunct1] h [THEN conjunct2, THEN conjunct1]
          h [THEN conjunct2, THEN conjunct2, THEN conjunct1]
          h [THEN conjunct2, THEN conjunct2, THEN conjunct2]])
next
  assume h: "raw_value = pre @ Y @ post \<and> map to_lower Y = ''subpanel:2 input:5'' \<and>
    (case post of [] \<Rightarrow> True | c # _ \<Rightarrow> \<not> is_digit c) \<and>
    rx_search pattern1 raw_value = None \<and>
    (\<forall>j<length pre. rx_match pattern2 (drop j raw_value) [] = None)"
  show "extract_field raw_value = \<lparr>subpanel = Some 2, address = Some 5, raw = raw_value\<rparr>"
    by (rule extract_second_casing [OF h [THEN conjunct1] h [THEN conjunct2, THEN conjunct1]
          h [THEN conjunct2, THEN conjunct2, THEN conjunct1]
          h [THEN conjunct2, THEN conjunct2, THEN conjunct2, THEN conjunct1]
          h [THEN conjunct2, THEN conjunct2, THEN conjunct2, THEN conjunct2]])
next
  assume h: "rx_search pattern1 raw_value = None \<and> rx_search pattern2 raw_value = None"
  show "extract_field raw_value = \<lparr>subpanel = None, address = None, raw = raw_value\<rparr>"
    by (rule extract_field_neither [OF h [THEN conjunct1] h [THEN conjunct2]])
next
  show "raw (extract_field raw_value) = raw_value" by (rule raw_extract_field)
qed

theorem extract_field_examples_witness:
  "extract_field ''Reader on SUBPANEL 3 address 12 (x)'' =
     \<lparr>subpanel = Some 3, address = Some 12, raw = ''Reader on SUBPANEL 3 address 12 (x)''\<rparr> \<and>
   extract_field ''Input (subPanel:2 INPUT:5)'' =
     \<lparr>subpanel = Some 2, address = Some 5, raw = ''Input (subPanel:2 INPUT:5)''\<rparr> \<and>
   extract_field ''no hardware'' =
     \<lparr>subpanel = None, address = None, raw = ''no hardware''\<rparr>"
proof -
  let ?t1 = "''Reader on SUBPANEL 3 address 12 (x)''"
  let ?t2 = "''Input (subPanel:2 INPUT:5)''"
  have "\<forall>j\<in>set [0..<10]. rx_match pattern1 (drop j ?t1) [] = None" by code_simp
  then have a1: "\<forall>j<length ''Reader on ''. rx_match pattern1 (drop j ?t1) [] = None"
    by simp
  have a2: "?t1 = ''Reader on '' @ ''SUBPANEL 3 address 12'' @ '' (x)''" by simp
  have a3: "map to_lower ''SUBPANEL 3 address 12'' = ''subpanel 3 address 12''" by code_simp
  have a4: "case '' (x)'' of [] \<Rightarrow> True | c # _ \<Rightarrow> \<not> is_digit c" by code_simp
  have r1: "extract_field ?t1 = \<lparr>subpanel = Some 3, address = Some 12, raw = ?t1\<rparr>"
    by (rule extract_field_examples [where raw_value = "?t1" and pre = "''Reader on ''"
          and X = "''SUBPANEL 3 address 12''" and post = "'' (x)''", THEN conjunct1, rule_format])
       (intro conjI a1 a2 a3 a4)
  have "\<forall>j\<in>set [0..<7]. rx_match pattern2 (drop j ?t2) [] = None" by code_simp
  then have b1: "\<forall>j<length ''Input (''. rx_match pattern2 (drop j ?t2) [] = None"
    by simp
  have b2: "?t2 = ''Input ('' @ ''subPanel:2 INPUT:5'' @ '')''" by simp
  have b3: "map to_lower ''subPanel:2 INPUT:5'' = ''subpanel:2 input:5''" by code_simp
  have b4: "case '')'' of [] \<Rightarrow> True | c # _ \<Rightarrow> \<not> is_digit c" by code_simp
  have b5: "rx_search pattern1 ?t2 = None" by code_simp
  have r2: "extract_field ?t2 = \<lparr>subpanel = Some 2, address = Some 5, raw = ?t2\<rparr>"
    by (rule extract_field_examples [where raw_value = "?t2" and pre = "''Input (''"
          and Y = "''subPanel:2 INPUT:5''" and post = "'')''",
          THEN conjunct2, THEN conjunct1, rule_format])
       (intro conjI b1 b2 b3 b4 b5)
  have c1: "rx_search pattern1 ''no hardware'' = None" by code_simp
  have c2: "rx_search pattern2 ''no hardware'' = None" by code_simp
  have r3: "extract_field ''no hardware'' =
     \<lparr>subpanel = None, address = None, raw = ''no hardware''\<rparr>"
    by (rule extract_field_examples [where raw_value = "''no hardware''", THEN conjunct2,
          THEN conjunct2, THEN conjunct1, rule_format])
       (intro conjI c1 c2)
  show ?thesis by (intro conjI r1 r2 r3)
qed

text \<open>A text that contains \<^verbatim>\<open>subpanel 3 Address 12\<close>, followed by one more digit.\<close>

theorem longer_number_counterexample:
  "extract_field ''Reader on subpanel 3 Address 123'' =
     \<lparr>subpanel = Some 3, address = Some 123, raw = ''Reader on subpanel 3 Address 123''\<rparr>"
  by code_simp

subsection \<open>The hierarchy builder\<close>

lemma map_fst_dict_set:
  "map fst (dict_set m k v) = (if k \<in> set (map fst m) then map fst m else map fst m @ [k])"
  by (induction m k v rule: dict_set.induct) simp_all

lemma distinct_dict_set: "distinct (map fst m) \<Longrightarrow> distinct (map fst (dict_set m k v))"
  by (simp add: map_fst_dict_set)

lemma list_all_dict_set:
  "list_all P m \<Longrightarrow> P (k, v) \<Longrightarrow> list_all P (dict_set m k v)"
  by (induction m k v rule: dict_set.induct) simp_all

lemma lookup3_insert_door:
  "lookup3 (insert_door ps p sp n d) k = (if k = (p, sp, n) then Some d else lookup3 ps k)"
  by (cases k)
     (auto simp: lookup3_def insert_door_def Let_def map_of_dict_set setdefault_def
       split: option.splits)

lemma map_of_SomeD_set: "map_of m k = Some v \<Longrightarrow> (k, v) \<in> set m"
  by (rule map_of_SomeD)

lemma distinct_keys_insert_door:
  assumes "distinct_keys ps"
  shows "distinct_keys (insert_door ps p sp n d)"
proof -
  let ?pd = "setdefault ps p"
  let ?sd = "setdefault ?pd sp"
  let ?sd' = "dict_set ?sd n d"
  let ?pd' = "dict_set ?pd sp ?sd'"
  have pd: "distinct (map fst ?pd) \<and> list_all (\<lambda>se. distinct (map fst (snd se))) ?pd"
  proof (cases "map_of ps p")
    case None then show ?thesis by (simp add: setdefault_def)
  next
    case (Some v)
    then have "(p, v) \<in> set ps" by (rule map_of_SomeD)
    with assms Some show ?thesis
      by (auto simp: setdefault_def distinct_keys_def list_all_iff)
  qed
  have sd: "distinct (map fst ?sd)"
  proof (cases "map_of ?pd sp")
    case None then show ?thesis by (simp add: setdefault_def)
  next
    case (Some v)
    then have "(sp, v) \<in> set ?pd" by (rule map_of_SomeD)
    with pd Some show ?thesis
      by (auto simp: setdefault_def [of ?pd] list_all_iff)
  qed
  have sd': "distinct (map fst ?sd')" using sd by (rule distinct_dict_set)
  have pd': "distinct (map fst ?pd') \<and> list_all (\<lambda>se. distinct (map fst (snd se))) ?pd'"
    using pd sd' by (simp add: distinct_dict_set list_all_dict_set)
  have "distinct (map fst (dict_set ps p ?pd'))"
    using assms by (simp add: distinct_keys_def distinct_dict_set)
  moreover have "list_all (\<lambda>pe. distinct (map fst (snd pe)) \<and>
                 list_all (\<lambda>se. distinct (map fst (snd se))) (snd pe)) (dict_set ps p ?pd')"
    using assms pd' by (intro list_all_dict_set) (simp_all add: distinct_keys_def)
  ultimately show ?thesis
    by (simp add: distinct_keys_def insert_door_def Let_def)
qed

lemma entries_alt: "entries df = List.map_filter (keyed_section df) (sections (cfg_indices df))"
  by (simp add: entries_def keyed_section_def [abs_def])

lemma parse_loop_lookup3:
  "lookup3 (parse_loop df cfg ps) =
   lookup3 ps ++ map_of (rev (List.map_filter (keyed_section df) (sections cfg)))"
proof (induction df cfg ps rule: parse_loop.induct)
  case (1 df a b rest ps)
  show ?case
  proof (cases "parse_section df a b")
    case None
    then show ?thesis using 1 by (simp add: keyed_section_def map_filter_simps)
  next
    case (Some e)
    obtain p sp n d where e: "e = (p, sp, n, d)" by (cases e) auto
    let ?R = "List.map_filter (keyed_section df) (sections (b # rest))"
    have l: "lookup3 (insert_door ps p sp n d) = lookup3 ps ++ map_of [((p, sp, n), d)]"
      by (rule ext) (simp add: lookup3_insert_door map_add_def)
    have mf: "List.map_filter (keyed_section df) (sections (a # b # rest)) =
              ((p, sp, n), d) # ?R"
      using Some e by (simp add: keyed_section_def map_filter_simps)
    have "lookup3 (parse_loop df (a # b # rest) ps) =
          lookup3 (insert_door ps p sp n d) ++ map_of (rev ?R)"
      using 1 Some e by simp
    also have "\<dots> = (lookup3 ps ++ map_of [((p, sp, n), d)]) ++ map_of (rev ?R)"
      by (simp only: l)
    also have "\<dots> = lookup3 ps ++ map_of (rev ?R @ [((p, sp, n), d)])"
      by (simp only: map_of_append map_add_assoc)
    finally show ?thesis by (simp only: mf rev.simps)
  qed
qed (simp_all add: map_filter_simps)

lemma distinct_keys_parse_loop:
  "distinct_keys ps \<Longrightarrow> distinct_keys (parse_loop df cfg ps)"
proof (induction df cfg ps rule: parse_loop.induct)
  case (1 df a b rest ps)
  then show ?case
    by (cases "parse_section df a b") (auto simp: distinct_keys_insert_door)
qed simp_all

lemma parse_loop_append:
  "parse_loop df (pre @ a # rest) ps = parse_loop df (a # rest) (parse_loop df (pre @ [a]) ps)"
proof (induction pre arbitrary: ps)
  case Nil
  show ?case by simp
next
  case (Cons x pre)
  show ?case
  proof (cases pre)
    case Nil
    then show ?thesis by simp
  next
    case (Cons y pre')
    with Cons.IH show ?thesis by simp
  qed
qed

lemma malformed_iff: "malformed df a b = (parse_section df a b = None)"
proof (cases "a = 0")
  case True
  then show ?thesis by (simp add: malformed_def parse_section_def)
next
  case False
  then have "nat (int a - 1) = a - 1" "\<not> int a - 1 < 0" by auto
  then show ?thesis using False
    by (simp add: malformed_def parse_section_def Let_def split: list.splits prod.splits)
qed

lemma parse_section_panel_name:
  assumes "parse_section df a b = Some (p, sp, n, d)"
  shows "\<exists>r rs. filter (\<lambda>r. Name r = Some ''Panel'') (loc_slice df (a - 1) (b - 1)) = r # rs \<and>
           p = strip (py_str (Value r)) \<and> n = py_str (Name (df ! (a - 1)))"
proof (cases "a = 0")
  case True
  with assms show ?thesis by (simp add: parse_section_def)
next
  case False
  then have "nat (int a - 1) = a - 1" "\<not> int a - 1 < 0" by auto
  with assms show ?thesis
    by (auto simp: parse_section_def Let_def split: list.splits prod.splits)
qed

lemma strip_surrounding:
  assumes w1: "list_all is_space w1" and w2: "list_all is_space w2"
  shows "strip (w1 @ v @ w2) = strip v"
proof -
  have l: "lstrip (w1 @ v @ w2) = lstrip (v @ w2)"
    using w1 by (simp add: lstrip_def list_all_iff dropWhile_append2)
  show ?thesis
  proof (cases "list_all is_space v")
    case True
    then have "lstrip (v @ w2) = []" "lstrip v = []"
      using w2 by (auto simp: lstrip_def list_all_iff)
    with l show ?thesis by (simp add: strip_def rstrip_def)
  next
    case False
    then have "\<exists>x\<in>set v. \<not> is_space x" by (simp add: list_all_iff)
    then have "lstrip (v @ w2) = lstrip v @ w2"
      by (auto simp: lstrip_def dropWhile_append1)
    moreover have "dropWhile is_space (rev w2 @ rev (lstrip v)) = dropWhile is_space (rev (lstrip v))"
      using w2 by (intro dropWhile_append2) (simp add: list_all_iff)
    ultimately show ?thesis using l by (simp add: strip_def rstrip_def)
  qed
qed

lemma lookup3_parse_door_config:
  "lookup3 (parse_door_config df) = map_of (rev (entries df))"
proof -
  have "lookup3 [] = Map.empty" by (rule ext) (simp add: lookup3_def)
  then show ?thesis
    unfolding parse_door_config_def entries_alt parse_loop_lookup3 by simp
qed

lemma map_of_last_write:
  assumes "es = es1 @ (k, d) # es2" "k \<notin> fst ` set es2"
  shows "map_of (rev es) k = Some d"
proof -
  have "map_of (rev es2) k = None"
    using assms(2) by (simp add: map_of_eq_None_iff)
  then show ?thesis
    unfolding assms(1) by (simp add: map_of_append map_add_def)
qed

text \<open>
  Claim C5. Every section that is parsed puts its door into one bucket, the one of its panel
  name and subpanel number, under its door name: the structure holds under a panel name,
  subpanel number and door name exactly the door of the last parsed section with these
  three, it holds nothing that no section put there, and no dictionary of it has a key
  twice. A later door with the same name in the same bucket replaces the earlier one.
  A section without a \<^verbatim>\<open>Panel\<close> row is not parsed and leaves no door.
\<close>

theorem every_door_in_one_bucket:
  "(\<forall>k. lookup3 (parse_door_config df) k = map_of (rev (entries df)) k) \<and>
   distinct_keys (parse_door_config df) \<and>
   (\<forall>es1 k d es2. entries df = es1 @ (k, d) # es2 \<and> k \<notin> fst ` set es2 \<longrightarrow>
      lookup3 (parse_door_config df) k = Some d) \<and>
   (\<forall>k d. lookup3 (parse_door_config df) k = Some d \<longrightarrow> (k, d) \<in> set (entries df)) \<and>
   (\<forall>a b. filter (\<lambda>r. Name r = Some ''Panel'') (loc_slice df (a - 1) (b - 1)) = [] \<longrightarrow>
      parse_section df a b = None)"
proof (intro conjI allI impI)
  show "lookup3 (parse_door_config df) k = map_of (rev (entries df)) k" for k
    by (simp only: lookup3_parse_door_config)
  show "distinct_keys (parse_door_config df)"
    unfolding parse_door_config_def
    by (rule distinct_keys_parse_loop) (simp add: distinct_keys_def)
  show "lookup3 (parse_door_config df) k = Some d"
    if "entries df = es1 @ (k, d) # es2 \<and> k \<notin> fst ` set es2" for es1 k d es2
    unfolding lookup3_parse_door_config
    by (rule map_of_last_write [OF that [THEN conjunct1] that [THEN conjunct2]])
  show "(k, d) \<in> set (entries df)" if "lookup3 (parse_door_config df) k = Some d" for k d
    using that unfolding lookup3_parse_door_config by (auto dest: map_of_SomeD)
  show "parse_section df a b = None"
    if "filter (\<lambda>r. Name r = Some ''Panel'') (loc_slice df (a - 1) (b - 1)) = []" for a b
    using that malformed_iff [of df a b] by (simp add: malformed_def)
qed

theorem every_door_in_one_bucket_witness:
  "lookup3 (parse_door_config example_df_dup) (''P'', 1, ''Door A'') =
     Some (reader_door 5 ''Reader on subpanel 1 Address 5'') \<and>
   parse_section example_df_malformed 2 5 = None \<and>
   lookup3 (parse_door_config example_df_dup) (''P'', 2, ''Door A'') = None"
proof -
  note T = every_door_in_one_bucket
  let ?k = "(''P'', 1 :: int, ''Door A'')"
  let ?d4 = "reader_door 4 ''Reader on subpanel 1 Address 4''"
  let ?d5 = "reader_door 5 ''Reader on subpanel 1 Address 5''"
  have e: "entries example_df_dup = [(?k, ?d4)] @ (?k, ?d5) # []"
    by code_simp
  have "?k \<notin> fst ` set ([] :: ((string \<times> int \<times> string) \<times> door) list)" by simp
  with e T [of example_df_dup, THEN conjunct2, THEN conjunct2, THEN conjunct1]
  have a: "lookup3 (parse_door_config example_df_dup) ?k = Some ?d5"
    by blast
  have "filter (\<lambda>r. Name r = Some ''Panel'') (loc_slice example_df_malformed (2 - 1) (5 - 1)) = []"
    by code_simp
  with T [of example_df_malformed, THEN conjunct2, THEN conjunct2, THEN conjunct2, THEN conjunct2]
  have b: "parse_section example_df_malformed 2 5 = None"
    by blast
  have "lookup3 (parse_door_config example_df_dup) (''P'', 2, ''Door A'') =
        map_of (rev (entries example_df_dup)) (''P'', 2, ''Door A'')"
    using T [of example_df_dup, THEN conjunct1] by blast
  then have c: "lookup3 (parse_door_config example_df_dup) (''P'', 2, ''Door A'') = None"
    unfolding e by simp
  show ?thesis by (intro conjI a b c)
qed

text \<open>
  Claim C7. A section is skipped exactly when it is malformed: its sentinel is the first row
  of the table, or it has no \<^verbatim>\<open>Panel\<close> row. A malformed section leaves the structure built
  from the sections before it unchanged, and the sections after it are processed from that
  structure; a well-formed section adds its door and the loop goes on in the same way. The
  loop is a total function: no section makes it fail.
\<close>

theorem malformed_sections_skipped:
  "malformed df a b = (parse_section df a b = None) \<and>
   (malformed df a b \<longrightarrow>
      parse_loop df (pre @ a # b # rest) ps =
      parse_loop df (b # rest) (parse_loop df (pre @ [a]) ps)) \<and>
   (\<not> malformed df a b \<longrightarrow>
      (\<exists>p sp n d. parse_section df a b = Some (p, sp, n, d) \<and>
         parse_loop df (pre @ a # b # rest) ps =
         parse_loop df (b # rest) (insert_door (parse_loop df (pre @ [a]) ps) p sp n d)))"
proof (intro conjI impI)
  show "malformed df a b = (parse_section df a b = None)" by (rule malformed_iff)
next
  assume "malformed df a b"
  then have "parse_section df a b = None" by (simp add: malformed_iff)
  then show "parse_loop df (pre @ a # b # rest) ps =
      parse_loop df (b # rest) (parse_loop df (pre @ [a]) ps)"
    by (simp add: parse_loop_append [of df pre a "b # rest"])
next
  assume "\<not> malformed df a b"
  then obtain e where e: "parse_section df a b = Some e" by (auto simp: malformed_iff)
  obtain p sp n d where "e = (p, sp, n, d)" by (cases e) auto
  with e have "parse_section df a b = Some (p, sp, n, d)" by simp
  then have "parse_section df a b = Some (p, sp, n, d) \<and>
         parse_loop df (pre @ a # b # rest) ps =
         parse_loop df (b # rest) (insert_door (parse_loop df (pre @ [a]) ps) p sp n d)"
    by (simp add: parse_loop_append [of df pre a "b # rest"])
  then show "\<exists>p sp n d. parse_section df a b = Some (p, sp, n, d) \<and>
         parse_loop df (pre @ a # b # rest) ps =
         parse_loop df (b # rest) (insert_door (parse_loop df (pre @ [a]) ps) p sp n d)"
    by blast
qed

theorem malformed_sections_skipped_witness:
  "cfg_indices example_df_malformed = [0, 2, 5, 8] \<and>
   malformed example_df_malformed 0 2 \<and> malformed example_df_malformed 2 5 \<and>
   parse_door_config example_df_malformed =
     [(''P'', [(- 1, [(''Door B'', \<lparr>door_index = - 1, hardware = []\<rparr>)])])]"
proof -
  let ?df = example_df_malformed
  note T = malformed_sections_skipped
  have c: "cfg_indices ?df = [0, 2, 5, 8]" by code_simp
  have m1: "malformed ?df 0 2" by (simp add: malformed_def)
  have m2: "malformed ?df 2 5"
    by code_simp
  have m3: "\<not> malformed ?df 5 8" by code_simp
  have s1: "parse_loop ?df [0, 2, 5, 8] [] = parse_loop ?df [2, 5, 8] []"
    using T [of ?df 0 2 "[]" "[5, 8]" "[]", THEN conjunct2, THEN conjunct1] m1 by simp
  have s2: "parse_loop ?df [2, 5, 8] [] = parse_loop ?df [5, 8] []"
    using T [of ?df 2 5 "[]" "[8]" "[]", THEN conjunct2, THEN conjunct1] m2 by simp
  from T [of ?df 5 8 "[]" "[]" "[]", THEN conjunct2, THEN conjunct2] m3
  obtain p sp n d where ps: "parse_section ?df 5 8 = Some (p, sp, n, d)"
    and s3: "parse_loop ?df ([] @ 5 # 8 # []) [] =
             parse_loop ?df (8 # []) (insert_door (parse_loop ?df ([] @ [5]) []) p sp n d)"
    by blast
  have pv: "parse_section ?df 5 8 =
            Some (''P'', - 1, ''Door B'', \<lparr>door_index = - 1, hardware = []\<rparr>)"
    by code_simp
  have "Some (p, sp, n, d) = Some (''P'', - 1, ''Door B'', \<lparr>door_index = - 1, hardware = []\<rparr>)"
    unfolding ps [symmetric] pv ..
  then have "p = ''P''" "sp = - 1" "n = ''Door B''" "d = \<lparr>door_index = - 1, hardware = []\<rparr>"
    by (simp_all only: option.inject prod.inject)
  with s3 have "parse_loop ?df [5, 8] [] =
     insert_door [] ''P'' (- 1) ''Door B'' \<lparr>door_index = - 1, hardware = []\<rparr>"
    by simp
  also have "\<dots> = [(''P'', [(- 1, [(''Door B'', \<lparr>door_index = - 1, hardware = []\<rparr>)])])]"
    by code_simp
  finally have "parse_door_config ?df =
     [(''P'', [(- 1, [(''Door B'', \<lparr>door_index = - 1, hardware = []\<rparr>)])])]"
    unfolding parse_door_config_def c s1 s2 .
  with c m1 m2 show ?thesis by blast
qed

text \<open>
  Claim C10. The panel name of a parsed section is the value of the first \<^verbatim>\<open>Panel\<close> row of
  its block with leading and trailing whitespace removed. Values that differ only in
  surrounding whitespace give the same name, and a door whose panel name is already a key
  of the structure goes into that panel: no second panel is made.
\<close>

theorem panel_name_stripped:
  "(parse_section df a b = Some (p, sp, n, d) \<longrightarrow>
      (\<exists>r rs. filter (\<lambda>r. Name r = Some ''Panel'') (loc_slice df (a - 1) (b - 1)) = r # rs \<and>
         p = strip (py_str (Value r)))) \<and>
   (list_all is_space w1 \<and> list_all is_space w2 \<longrightarrow> strip (w1 @ v @ w2) = strip v) \<and>
   map fst (insert_door ps p sp n d) =
     (if p \<in> set (map fst ps) then map fst ps else map fst ps @ [p]) \<and>
   lookup3 (insert_door ps p sp n d) (p, sp, n) = Some d"
proof (intro conjI impI)
  assume "parse_section df a b = Some (p, sp, n, d)"
  from parse_section_panel_name [OF this]
  show "\<exists>r rs. filter (\<lambda>r. Name r = Some ''Panel'') (loc_slice df (a - 1) (b - 1)) = r # rs \<and>
         p = strip (py_str (Value r))"
    by blast
next
  assume "list_all is_space w1 \<and> list_all is_space w2"
  then show "strip (w1 @ v @ w2) = strip v" by (simp add: strip_surrounding)
next
  show "map fst (insert_door ps p sp n d) =
     (if p \<in> set (map fst ps) then map fst ps else map fst ps @ [p])"
    by (simp only: insert_door_def Let_def map_fst_dict_set)
next
  show "lookup3 (insert_door ps p sp n d) (p, sp, n) = Some d"
    by (simp add: lookup3_insert_door)
qed

theorem panel_name_stripped_witness:
  "(\<exists>d. parse_section example_df_dup 6 10 = Some (''P'', 1, ''Door A'', d)) \<and>
   strip (''  '' @ ''P'' @ '' '') = ''P'' \<and>
   map fst (parse_door_config example_df_dup) = [''P'']"
proof -
  let ?df = example_df_dup
  note T = panel_name_stripped
  let ?d4 = "reader_door 4 ''Reader on subpanel 1 Address 4''"
  let ?d5 = "reader_door 5 ''Reader on subpanel 1 Address 5''"
  have p1: "parse_section ?df 1 6 = Some (''P'', 1, ''Door A'', ?d4)" by code_simp
  have p2: "parse_section ?df 6 10 = Some (''P'', 1, ''Door A'', ?d5)" by code_simp
  from T [of ?df 6 10 "''P''" 1 "''Door A''" ?d5, THEN conjunct1] p2
  obtain r rs where r: "filter (\<lambda>r. Name r = Some ''Panel'') (loc_slice ?df (6 - 1) (10 - 1)) = r # rs"
    and "''P'' = strip (py_str (Value r))" by blast
  have sp: "list_all is_space ''  '' \<and> list_all is_space '' ''" by code_simp
  with T [where ?w1.0 = "''  ''" and ?w2.0 = "'' ''" and v = "''P''", THEN conjunct2, THEN conjunct1]
  have "strip (''  '' @ ''P'' @ '' '') = strip ''P''" by blast
  moreover have "strip ''P'' = ''P''" by code_simp
  ultimately have s: "strip (''  '' @ ''P'' @ '' '') = ''P''" by simp
  have c: "cfg_indices ?df = [1, 6, 10]" by code_simp
  have "parse_door_config ?df = insert_door (insert_door [] ''P'' 1 ''Door A'' ?d4) ''P'' 1 ''Door A'' ?d5"
    unfolding parse_door_config_def c
    by (simp only: parse_loop.simps p1 p2 option.case prod.case)
  moreover have "map fst (insert_door [] ''P'' 1 ''Door A'' ?d4) = [''P'']"
    using T [of _ _ _ "''P''" 1 "''Door A''" ?d4 _ _ _ "[]", THEN conjunct2, THEN conjunct2, THEN conjunct1]
    by simp
  ultimately have "map fst (parse_door_config ?df) = [''P'']"
    using T [of _ _ _ "''P''" 1 "''Door A''" ?d5 _ _ _ "insert_door [] ''P'' 1 ''Door A'' ?d4",
        THEN conjunct2, THEN conjunct2, THEN conjunct1]
    by simp
  with p2 s show ?thesis by blast
qed


subsection \<open>Layout\<close>

lemma patches_append: "patches (xs @ ys) = patches xs @ patches ys"
  by (induction xs rule: patches.induct) simp_all

lemma patches_concat: "patches (concat xss) = concat (map patches xss)"
  by (induction xss) (simp_all add: patches_append)

lemma patches_draw_doors:
  "patches (draw_doors show_lines cx sw h s y items) =
   map (\<lambda>k. Patch (cx - sw * 0.9 / 2) (y - real k * (h + s) - h / 2) (sw * 0.9) h Green)
     [0..<length items]"
proof (induction items arbitrary: y)
  case Nil
  show ?case by simp
next
  case (Cons it items)
  obtain name d where it: "it = (name, d)" by (cases it)
  have "[0..<length (it # items)] = 0 # map Suc [0..<length items]"
    by (simp add: upt_conv_Cons map_Suc_upt del: upt_Suc)
  then show ?case
    using Cons.IH [of "y - (h + s)"]
    by (simp add: it Let_def patches_append algebra_simps del: upt_Suc)
qed

lemma length_door_items: "length (door_items doors) = length doors"
  by (simp add: door_items_def)

lemma patches_draw_subpanel_doors:
  "patches (draw_subpanel_doors show_lines cx sw doors) =
   map (\<lambda>k. Patch (cx - sw * 0.9 / 2)
               (0.6 - (real k + 0.8) * (0.5 / real (length doors)))
               (sw * 0.9) (0.8 * (0.5 / real (length doors))) Green)
     [0..<length doors]"
proof (cases "doors = []")
  case True
  then show ?thesis by (simp add: draw_subpanel_doors_def)
next
  case False
  then have m: "real (length doors) > 0" by simp
  show ?thesis
    using False m
    by (simp add: draw_subpanel_doors_def Let_def patches_draw_doors length_door_items
        field_simps)
qed

lemma patches_draw_subpanel:
  assumes "n > 0"
  shows "patches (draw_subpanel show_lines subpanels n isp) = column_boxes subpanels n isp"
proof -
  have n: "real n > 0" using assms by simp
  show ?thesis
    using n
    by (simp add: draw_subpanel_def Let_def patches_append patches_draw_subpanel_doors
        column_boxes_def sub_box_def door_box_def door_count_def field_simps)
qed

lemma in_unit_panel: "in_unit panel_box"
  by (simp add: panel_box_def)

lemma in_unit_sub:
  assumes "i < n"
  shows "in_unit (sub_box n i)"
proof -
  have n: "real n > 0" and i: "real i + 1 \<le> real n" using assms by auto
  have "(real i + 0.1) / real n + 0.8 / real n = (real i + 0.9) / real n"
    by (simp add: add_divide_distrib)
  moreover have "(real i + 0.9) / real n \<le> 1" using n i by simp
  moreover have "0 \<le> (real i + 0.1) / real n" using n by simp
  ultimately show ?thesis using n by (simp add: sub_box_def)
qed

lemma in_unit_door:
  assumes "i < n" "k < m"
  shows "in_unit (door_box n i m k)"
proof -
  have n: "real n > 0" and i: "real i + 1 \<le> real n" using assms by auto
  have m: "real m > 0" and k: "real k + 1 \<le> real m" using assms by auto
  define s where "s = 0.5 / real m"
  have s: "s > 0" using m by (simp add: s_def)
  have ms: "real m * s = 0.5" using m by (simp add: s_def)
  have "(real k + 1) * s \<le> real m * s"
    using k s by (intro mult_right_mono) auto
  then have ks: "real k * s + s \<le> 0.5" using ms by (simp add: algebra_simps)
  have ks0: "0 \<le> real k * s" using s by simp
  have e: "(real k + 0.8) * s = real k * s + 0.8 * s" by (simp add: algebra_simps)
  have c1: "0 \<le> (real i + 0.14) / real n" using n by simp
  have "(real i + 0.14) / real n + 0.72 / real n = (real i + 0.86) / real n"
    by (simp add: add_divide_distrib)
  moreover have "(real i + 0.86) / real n \<le> 1" using n i by simp
  ultimately have c2: "(real i + 0.14) / real n + 0.72 / real n \<le> 1" by simp
  have c3: "0 \<le> 0.6 - (real k + 0.8) * s" using e ks s by linarith
  have c4: "0.6 - (real k + 0.8) * s + 0.8 * s \<le> 1" using e ks0 by linarith
  have c5: "0 < 0.72 / real n" using n by simp
  have c6: "0 < 0.8 * s" using s by simp
  show ?thesis
    unfolding door_box_def in_unit.simps s_def [symmetric]
    by (intro conjI c1 c2 c3 c4 c5 c6)
qed

lemma sep_sub_sub:
  assumes "n > 0" "i < i'"
  shows "separate (sub_box n i) (sub_box n i')"
proof -
  have n: "real n > 0" and i: "real i + 1 \<le> real i'" using assms by auto
  have "(real i + 0.1) / real n + 0.8 / real n = (real i + 0.9) / real n"
    by (simp add: add_divide_distrib)
  moreover have "(real i + 0.9) / real n < (real i' + 0.1) / real n"
    using n i by (simp add: divide_strict_right_mono)
  ultimately show ?thesis by (simp add: separate_def sub_box_def)
qed

lemma sep_door_other_column:
  assumes "n > 0" "i < i'"
  shows "separate (door_box n i m k) (door_box n i' m' k')"
proof -
  have n: "real n > 0" and i: "real i + 1 \<le> real i'" using assms by auto
  have "(real i + 0.14) / real n + 0.72 / real n = (real i + 0.86) / real n"
    by (simp add: add_divide_distrib)
  moreover have "(real i + 0.86) / real n < (real i' + 0.14) / real n"
    using n i by (simp add: divide_strict_right_mono)
  ultimately show ?thesis by (simp add: separate_def door_box_def)
qed

lemma sep_door_same_column:
  assumes "m > 0" "k < k'"
  shows "separate (door_box n i m k) (door_box n i m k')"
proof -
  have s: "0.5 / real m > 0" and k: "real k + 1 \<le> real k'" using assms by auto
  have "0.6 - (real k' + 0.8) * (0.5 / real m) + 0.8 * (0.5 / real m)
        = 0.6 - real k' * (0.5 / real m)"
    by (simp add: algebra_simps)
  moreover have "(real k + 0.8) * (0.5 / real m) < real k' * (0.5 / real m)"
    using s k by (intro mult_strict_right_mono) auto
  ultimately show ?thesis by (simp add: separate_def door_box_def)
qed

lemma sep_colours [simp]:
  "separate (sub_box n i) (door_box n' i' m k)" "separate (door_box n' i' m k) (sub_box n i)"
  "separate panel_box (sub_box n i)" "separate panel_box (door_box n i m k)"
  by (simp_all add: separate_def sub_box_def door_box_def panel_box_def)

lemma column_boxes_cases:
  assumes "b \<in> set (column_boxes sps n (i, sp))"
  shows "b = sub_box n i \<or> (\<exists>k<door_count sps sp. b = door_box n i (door_count sps sp) k)"
  using assms by (auto simp: column_boxes_def)

lemma sorted_wrt_column:
  "sorted_wrt separate (column_boxes sps n (i, sp))"
proof -
  let ?m = "door_count sps sp"
  have "sorted_wrt (\<lambda>k k'. separate (door_box n i ?m k) (door_box n i ?m k')) [0..<?m]"
  proof (rule sorted_wrt_mono_rel [of _ "(<)"])
    fix k k' assume "k \<in> set [0..<?m]" "k' \<in> set [0..<?m]" "k < k'"
    then show "separate (door_box n i ?m k) (door_box n i ?m k')"
      by (intro sep_door_same_column) auto
  qed simp
  then show ?thesis
    by (auto simp: column_boxes_def sorted_wrt_map)
qed

lemma in_unit_column:
  assumes "i < n" "b \<in> set (column_boxes sps n (i, sp))"
  shows "in_unit b"
  using column_boxes_cases [OF assms(2)] assms(1) in_unit_sub in_unit_door by auto

lemma columns_cases:
  assumes "b \<in> set (concat (map (column_boxes sps n) (enumerate i0 ks)))"
  shows "\<exists>i sp. i0 \<le> i \<and> i < i0 + length ks \<and> b \<in> set (column_boxes sps n (i, sp))"
proof -
  from assms obtain isp where isp: "isp \<in> set (enumerate i0 ks)"
    and b: "b \<in> set (column_boxes sps n isp)" by auto
  from isp have "i0 \<le> fst isp \<and> fst isp < i0 + length ks"
    by (auto simp: in_set_enumerate_eq)
  with b show ?thesis by (cases isp) auto
qed

lemma sep_columns:
  assumes n: "n > 0" and ii: "i < i'"
    and a: "a \<in> set (column_boxes sps n (i, sp))"
    and b: "b \<in> set (column_boxes sps n (i', sp'))"
  shows "separate a b"
  using column_boxes_cases [OF a] column_boxes_cases [OF b]
    sep_sub_sub [OF n ii] sep_door_other_column [OF n ii]
  by auto

lemma sorted_wrt_columns:
  assumes n: "n > 0"
  shows "sorted_wrt separate (concat (map (column_boxes sps n) (enumerate i0 ks)))"
proof (induction ks arbitrary: i0)
  case Nil
  show ?case by simp
next
  case (Cons k ks)
  have "separate a b"
    if a: "a \<in> set (column_boxes sps n (i0, k))"
      and b: "b \<in> set (concat (map (column_boxes sps n) (enumerate (Suc i0) ks)))" for a b
  proof -
    from columns_cases [OF b] obtain i sp where "Suc i0 \<le> i"
      and bb: "b \<in> set (column_boxes sps n (i, sp))" by blast
    then have "i0 < i" by simp
    then show ?thesis by (rule sep_columns [OF n _ a bb])
  qed
  with Cons.IH [of "Suc i0"] sorted_wrt_column [of sps n i0 k]
  show ?case by (simp add: sorted_wrt_append)
qed

lemma draw_panel_diagram_patches:
  assumes "subpanels \<noteq> []"
  shows "\<exists>d. draw_panel_diagram panel_name subpanels output_file show_lines = Some d \<and>
           patches (cmds d) =
             panel_box #
             concat (map (column_boxes subpanels (length subpanels))
                       (enumerate 0 (sort (map fst subpanels))))"
proof -
  have n: "length subpanels > 0" using assms by simp
  have "map patches (map (draw_subpanel show_lines subpanels (length subpanels)) xs) =
        map (column_boxes subpanels (length subpanels)) xs" for xs
    by (simp add: patches_draw_subpanel [OF n])
  then show ?thesis
    using n
    by (simp add: draw_panel_diagram_def Let_def patches_append patches_concat panel_box_def
        del: map_map)
qed

lemma door_in_band:
  assumes "k < m"
  shows "0.1 < 0.6 - (real k + 0.8) * (0.5 / real m)"
proof -
  have m: "real m > 0" and k: "real k + 1 \<le> real m" using assms by auto
  define s where "s = 0.5 / real m"
  have s: "s > 0" using m by (simp add: s_def)
  have ms: "real m * s = 0.5" using m by (simp add: s_def)
  have "(real k + 1) * s \<le> real m * s"
    using k s by (intro mult_right_mono) auto
  then have ks: "real k * s + s \<le> 0.5" using ms by (simp add: algebra_simps)
  have e: "(real k + 0.8) * s = real k * s + 0.8 * s" by (simp add: algebra_simps)
  have "0.1 < 0.6 - (real k + 0.8) * s" using e ks s by linarith
  then show ?thesis by (simp only: s_def)
qed

text \<open>
  Claim C4. For a panel with at least one subpanel a diagram is drawn, and its boxes are the
  panel box followed, column by column, by each subpanel box and the boxes of its doors,
  as given in closed form (coordinates are exact reals). Every box lies in the unit square.
  Two boxes of the same level neither overlap nor touch. The \<open>k\<close>-th of the \<open>m\<close> doors of a
  subpanel has its top at \<open>0.6 - k * (0.5 / m)\<close> and a height of 80 percent of the share
  \<open>0.5 / m\<close>, so that 20 percent of the share stays free below it, and it lies above
  \<open>0.1\<close>.
\<close>

theorem layout_within_unit_square:
  "(subpanels \<noteq> [] \<longrightarrow>
     (\<exists>d. draw_panel_diagram panel_name subpanels output_file show_lines = Some d \<and>
          patches (cmds d) =
            panel_box #
            concat (map (column_boxes subpanels (length subpanels))
                      (enumerate 0 (sort (map fst subpanels)))) \<and>
          (\<forall>c\<in>set (patches (cmds d)). in_unit c) \<and>
          (\<forall>i j. i < j \<and> j < length (patches (cmds d)) \<and>
                 same_level (patches (cmds d) ! i) (patches (cmds d) ! j) \<longrightarrow>
                 apart (patches (cmds d) ! i) (patches (cmds d) ! j)))) \<and>
   patches (draw_subpanel_doors show_lines cx sw doors) =
     map (\<lambda>k. Patch (cx - sw * 0.9 / 2)
                 (0.6 - (real k + 0.8) * (0.5 / real (length doors)))
                 (sw * 0.9) (0.8 * (0.5 / real (length doors))) Green)
       [0..<length doors] \<and>
   (\<forall>k<length doors. 0.1 < 0.6 - (real k + 0.8) * (0.5 / real (length doors)))"
proof (intro conjI impI allI)
  assume ne: "subpanels \<noteq> []"
  let ?n = "length subpanels"
  let ?ks = "sort (map fst subpanels)"
  let ?cols = "concat (map (column_boxes subpanels ?n) (enumerate 0 ?ks))"
  from draw_panel_diagram_patches [OF ne] obtain d where
    d: "draw_panel_diagram panel_name subpanels output_file show_lines = Some d"
    and p: "patches (cmds d) = panel_box # ?cols" by blast
  have n: "?n > 0" using ne by simp
  have unit: "in_unit c" if "c \<in> set (patches (cmds d))" for c
  proof (cases "c = panel_box")
    case True then show ?thesis by (simp add: in_unit_panel)
  next
    case False
    with that p have "c \<in> set ?cols" by simp
    from columns_cases [OF this] obtain i sp where "i < 0 + length ?ks"
      and c: "c \<in> set (column_boxes subpanels ?n (i, sp))" by blast
    then have "i < ?n" by simp
    then show ?thesis using c by (rule in_unit_column)
  qed
  have "\<forall>b\<in>set ?cols. separate panel_box b"
  proof
    fix b assume "b \<in> set ?cols"
    from columns_cases [OF this] obtain i sp where
      "b \<in> set (column_boxes subpanels ?n (i, sp))" by blast
    from column_boxes_cases [OF this] show "separate panel_box b" by auto
  qed
  with sorted_wrt_columns [OF n, of subpanels 0 ?ks]
  have sw: "sorted_wrt separate (patches (cmds d))" by (simp add: p)
  have sep: "apart (patches (cmds d) ! i) (patches (cmds d) ! j)"
    if "i < j \<and> j < length (patches (cmds d)) \<and>
        same_level (patches (cmds d) ! i) (patches (cmds d) ! j)" for i j
    using sw that unfolding sorted_wrt_iff_nth_less separate_def by blast
  show "\<exists>d. draw_panel_diagram panel_name subpanels output_file show_lines = Some d \<and>
          patches (cmds d) = panel_box # ?cols \<and>
          (\<forall>c\<in>set (patches (cmds d)). in_unit c) \<and>
          (\<forall>i j. i < j \<and> j < length (patches (cmds d)) \<and>
                 same_level (patches (cmds d) ! i) (patches (cmds d) ! j) \<longrightarrow>
                 apart (patches (cmds d) ! i) (patches (cmds d) ! j))"
    using d p unit sep by blast
next
  show "patches (draw_subpanel_doors show_lines cx sw doors) =
     map (\<lambda>k. Patch (cx - sw * 0.9 / 2)
                 (0.6 - (real k + 0.8) * (0.5 / real (length doors)))
                 (sw * 0.9) (0.8 * (0.5 / real (length doors))) Green)
       [0..<length doors]"
    by (rule patches_draw_subpanel_doors)
next
  fix k assume "k < length doors"
  then show "0.1 < 0.6 - (real k + 0.8) * (0.5 / real (length doors))"
    by (rule door_in_band)
qed

theorem layout_within_unit_square_witness:
  "\<exists>d. draw_panel_diagram ''P'' example_panel ''out.png'' True = Some d \<and>
       patches (cmds d) =
         [Patch 0.3 0.91 0.4 0.08 Black,
          Patch (1 / 20) 0.7 (2 / 5) 0.1 Blue,
          Patch (7 / 100) (1 / 5) (9 / 25) (2 / 5) Green,
          Patch (11 / 20) 0.7 (2 / 5) 0.1 Blue,
          Patch (57 / 100) (7 / 15) (9 / 25) (2 / 15) Green,
          Patch (57 / 100) (3 / 10) (9 / 25) (2 / 15) Green,
          Patch (57 / 100) (2 / 15) (9 / 25) (2 / 15) Green] \<and>
       list_all in_unit (patches (cmds d)) \<and>
       apart (patches (cmds d) ! 4) (patches (cmds d) ! 5)"
proof -
  have ne: "example_panel \<noteq> []" by (simp add: example_panel_def)
  from layout_within_unit_square [of example_panel "''P''" "''out.png''" True, THEN conjunct1] ne
  obtain d where d: "draw_panel_diagram ''P'' example_panel ''out.png'' True = Some d"
    and p: "patches (cmds d) =
            panel_box #
            concat (map (column_boxes example_panel (length example_panel))
                      (enumerate 0 (sort (map fst example_panel))))"
    and u: "\<forall>c\<in>set (patches (cmds d)). in_unit c"
    and s: "\<forall>i j. i < j \<and> j < length (patches (cmds d)) \<and>
                 same_level (patches (cmds d) ! i) (patches (cmds d) ! j) \<longrightarrow>
                 apart (patches (cmds d) ! i) (patches (cmds d) ! j)"
    by blast
  have dc: "door_count example_panel 3 = 3" "door_count example_panel 0 = 1"
    by (simp_all add: door_count_def example_panel_def indexed_doors_def)
  have srt: "sort (map fst example_panel) = [0, 3]"
    by (simp add: example_panel_def)
  have len: "length example_panel = 2" by (simp add: example_panel_def)
  have up: "[0..<3] = [0, 1, 2]" "[0..<1] = [0]" by (simp_all add: upt_rec)
  have q: "patches (cmds d) =
         [Patch 0.3 0.91 0.4 0.08 Black,
          Patch (1 / 20) 0.7 (2 / 5) 0.1 Blue,
          Patch (7 / 100) (1 / 5) (9 / 25) (2 / 5) Green,
          Patch (11 / 20) 0.7 (2 / 5) 0.1 Blue,
          Patch (57 / 100) (7 / 15) (9 / 25) (2 / 15) Green,
          Patch (57 / 100) (3 / 10) (9 / 25) (2 / 15) Green,
          Patch (57 / 100) (2 / 15) (9 / 25) (2 / 15) Green]"
    unfolding p srt len
    by (simp add: column_boxes_def dc up panel_box_def sub_box_def door_box_def enumerate_simps)
  have l: "list_all in_unit (patches (cmds d))"
    using u by (simp only: list_all_iff)
  have "(4::nat) < 5 \<and> 5 < length (patches (cmds d)) \<and>
        same_level (patches (cmds d) ! 4) (patches (cmds d) ! 5)"
    unfolding q by simp
  with s have a: "apart (patches (cmds d) ! 4) (patches (cmds d) ! 5)" by blast
  from d q l a show ?thesis by blast
qed

end
